theory Spec2Isabelle
  imports Complex_Main "HOL-Library.Sublist"
begin

section \<open>Strings and the regular expressions of the program\<close>

text \<open>
  A Python \<open>str\<close> is modelled as a \<open>string\<close>, a list of 8-bit characters read as the
  code points 0 to 255 (Latin-1). The character classes below are those of Python on
  that range: \<open>str.isspace\<close>, the \<open>\w\<close> of \<open>re\<close> and \<open>str.lower\<close>.
\<close>

definition char_code :: "char \<Rightarrow> nat" where
  "char_code c = of_char c"

definition is_space :: "char \<Rightarrow> bool" where
  "is_space c = (let n = char_code c in
     (9 \<le> n \<and> n \<le> 13) \<or> (28 \<le> n \<and> n \<le> 32) \<or> n = 133 \<or> n = 160)"

definition is_word :: "char \<Rightarrow> bool" where
  "is_word c = (let n = char_code c in
     (48 \<le> n \<and> n \<le> 57) \<or> (65 \<le> n \<and> n \<le> 90) \<or> n = 95 \<or> (97 \<le> n \<and> n \<le> 122) \<or>
     n = 170 \<or> n = 178 \<or> n = 179 \<or> n = 181 \<or> n = 185 \<or> n = 186 \<or>
     (188 \<le> n \<and> n \<le> 190) \<or> (192 \<le> n \<and> n \<le> 214) \<or> (216 \<le> n \<and> n \<le> 246) \<or>
     248 \<le> n)"

definition is_upper :: "char \<Rightarrow> bool" where
  "is_upper c = (let n = char_code c in
     (65 \<le> n \<and> n \<le> 90) \<or> (192 \<le> n \<and> n \<le> 214) \<or> (216 \<le> n \<and> n \<le> 222))"

text \<open>The lower-case letter of an upper-case one is 32 further: bit 5 set.\<close>

definition lower_char :: "char \<Rightarrow> char" where
  "lower_char c = (if is_upper c
     then (case c of Char b0 b1 b2 b3 b4 b5 b6 b7 \<Rightarrow> Char b0 b1 b2 b3 b4 True b6 b7)
     else c)"

definition lower :: "string \<Rightarrow> string" where
  "lower s = map lower_char s"

definition strip :: "string \<Rightarrow> string" where
  "strip s = rev (dropWhile is_space (rev (dropWhile is_space s)))"

text \<open>\<open>sep.join(xs)\<close>.\<close>

fun join :: "string \<Rightarrow> string list \<Rightarrow> string" where
  "join sep [] = []"
| "join sep [x] = x"
| "join sep (x # y # ys) = x @ sep @ join sep (y # ys)"

text \<open>\<open>sub in s\<close> on strings: \<open>sub\<close> occurs in \<open>s\<close> as a contiguous substring.\<close>

fun contains :: "string \<Rightarrow> string \<Rightarrow> bool" where
  "contains [] sub = (sub = [])"
| "contains (c # s) sub = (take (length sub) (c # s) = sub \<or> contains s sub)"

text \<open>
  The patterns of the program use four constructs: a literal character (compared without
  case, the patterns are searched with \<open>re.IGNORECASE\<close> and hold ASCII letters only),
  the word boundary \<open>\b\<close>, an optional literal \<open>c?\<close> and \<open>.*\<close>, both greedy; \<open>.\<close> matches
  every character but the newline. A pattern is the list of its items.
\<close>

datatype rx = Lit char | Bnd | OptLit char | DotStar

definition is_word_opt :: "char option \<Rightarrow> bool" where
  "is_word_opt p = (case p of None \<Rightarrow> False | Some c \<Rightarrow> is_word c)"

definition is_word_hd :: "string \<Rightarrow> bool" where
  "is_word_hd s = (case s of [] \<Rightarrow> False | c # _ \<Rightarrow> is_word c)"

text \<open>
  \<open>match_here r prev s\<close>: the backtracking match of \<open>r\<close> at the start of \<open>s\<close>, where
  \<open>prev\<close> is the character before it (\<open>None\<close> at the start of the text); the result is
  the length of the match found first, the greedy alternatives tried first.
\<close>

fun match_here :: "rx list \<Rightarrow> char option \<Rightarrow> string \<Rightarrow> nat option" where
  "match_here [] prev s = Some 0"
| "match_here (Lit c # r) prev [] = None"
| "match_here (Lit c # r) prev (d # s) =
     (if lower_char d = lower_char c then map_option Suc (match_here r (Some d) s) else None)"
| "match_here (Bnd # r) prev s =
     (if is_word_opt prev \<noteq> is_word_hd s then match_here r prev s else None)"
| "match_here (OptLit c # r) prev [] = match_here r prev []"
| "match_here (OptLit c # r) prev (d # s) =
     (if lower_char d = lower_char c
      then (case match_here r (Some d) s of
              Some n \<Rightarrow> Some (Suc n)
            | None \<Rightarrow> match_here r prev (d # s))
      else match_here r prev (d # s))"
| "match_here (DotStar # r) prev [] = match_here r prev []"
| "match_here (DotStar # r) prev (d # s) =
     (if d \<noteq> CHR 0x0A
      then (case match_here (DotStar # r) (Some d) s of
              Some n \<Rightarrow> Some (Suc n)
            | None \<Rightarrow> match_here r prev (d # s))
      else match_here r prev (d # s))"

text \<open>\<open>re.search(r, s)\<close> as a truth value: some start position has a match.\<close>

fun search_from :: "rx list \<Rightarrow> char option \<Rightarrow> string \<Rightarrow> bool" where
  "search_from r prev [] = (match_here r prev [] \<noteq> None)"
| "search_from r prev (d # s) =
     (match_here r prev (d # s) \<noteq> None \<or> search_from r (Some d) s)"

definition re_search :: "rx list \<Rightarrow> string \<Rightarrow> bool" where
  "re_search r s = search_from r None s"

text \<open>
  \<open>re.finditer(r, s)\<close>: the spans (start, end) of the matches, left to right, without
  overlap. \<open>skip\<close> counts the characters still inside the match found last. (No pattern
  of the program matches the empty string.)
\<close>

fun finditer_from :: "rx list \<Rightarrow> nat \<Rightarrow> char option \<Rightarrow> nat \<Rightarrow> string \<Rightarrow> (nat \<times> nat) list" where
  "finditer_from r pos prev skip [] =
     (if skip = 0
      then (case match_here r prev [] of Some n \<Rightarrow> [(pos, pos + n)] | None \<Rightarrow> [])
      else [])"
| "finditer_from r pos prev skip (d # s) =
     (if skip > 0 then finditer_from r (Suc pos) (Some d) (skip - 1) s
      else (case match_here r prev (d # s) of
              Some n \<Rightarrow> (pos, pos + n) # finditer_from r (Suc pos) (Some d) (n - 1) s
            | None \<Rightarrow> finditer_from r (Suc pos) (Some d) 0 s))"

definition finditer :: "rx list \<Rightarrow> string \<Rightarrow> (nat \<times> nat) list" where
  "finditer r s = finditer_from r 0 None 0 s"

text \<open>A phrase between word boundaries, \<open>\bphrase\b\<close>.\<close>

definition lits :: "string \<Rightarrow> rx list" where
  "lits s = map Lit s"

definition word_rx :: "string \<Rightarrow> rx list" where
  "word_rx s = Bnd # lits s @ [Bnd]"

section \<open>Safety manager\<close>

text \<open>\<open>SafetyManager.dangerous_patterns\<close>, in the order of the source.\<close>

definition dangerous_patterns :: "rx list list" where
  "dangerous_patterns =
    [ word_rx ''rm'' @ [DotStar] @ lits ''-rf'',
      word_rx ''killall'',
      word_rx ''shutdown'',
      word_rx ''reboot'',
      word_rx ''sudo'' @ [DotStar] @ word_rx ''rm'',
      word_rx ''dd'' @ [DotStar] @ lits ''if='',
      word_rx ''mkfs'',
      word_rx ''format'' ]"

definition blocked_commands :: "string list" where
  "blocked_commands = [''rm -rf /'', ''sudo rm -rf /'', ''format c:'']"

text \<open>
  \<open>requires_confirmation\<close>: the loop over the commands returns \<open>True\<close> at the first
  command whose joined, lower-cased text is blocked or matches a dangerous pattern.
\<close>

fun requires_confirmation :: "string list list \<Rightarrow> bool" where
  "requires_confirmation [] = False"
| "requires_confirmation (cmd # rest) =
     (let cmd_str = lower (join '' '' cmd) in
      if cmd_str \<in> set blocked_commands then True
      else if list_ex (\<lambda>pattern. re_search pattern cmd_str) dangerous_patterns then True
      else requires_confirmation rest)"

fun filter_safe_commands :: "string list list \<Rightarrow> string list list" where
  "filter_safe_commands [] = []"
| "filter_safe_commands (cmd # rest) =
     (let cmd_str = lower (join '' '' cmd) in
      if cmd_str \<notin> set blocked_commands then
        (let is_dangerous = list_ex (\<lambda>pattern. re_search pattern cmd_str) dangerous_patterns in
         if \<not> is_dangerous then cmd # filter_safe_commands rest
         else filter_safe_commands rest)
      else filter_safe_commands rest)"

section \<open>Task parser\<close>

text \<open>
  \<open>Task\<close> and \<open>TaskType\<close> of \<open>task_parser.py\<close>. The field \<open>id\<close> is named \<open>task_id\<close>
  here.
\<close>

datatype TaskType = PARALLEL | SEQUENTIAL

record Task =
  task_id :: string
  instruction :: string
  task_type :: TaskType
  depends_on :: "string list"

text \<open>The connector patterns, in the order of the source.\<close>

definition parallel_connectors :: "rx list list" where
  "parallel_connectors =
    [ word_rx ''and'',
      word_rx ''also'',
      Bnd # lits ''while you'' @ [OptLit (CHR 0x27)] @ lits ''re doing that'' @ [Bnd],
      word_rx ''at the same time'',
      word_rx ''meanwhile'' ]"

definition sequential_connectors :: "rx list list" where
  "sequential_connectors =
    [ word_rx ''then'',
      word_rx ''after'',
      word_rx ''once'' @ [DotStar] @ word_rx ''done'',
      word_rx ''when'' @ [DotStar] @ word_rx ''finished'',
      word_rx ''next'',
      word_rx ''followed by'' ]"

definition is_multi_task :: "string \<Rightarrow> bool" where
  "is_multi_task text =
     (let all_connectors = parallel_connectors @ sequential_connectors
      in list_ex (\<lambda>pattern. re_search pattern text) all_connectors)"

text \<open>
  \<open>_split_instruction\<close>. \<open>find_connectors\<close> is the list \<open>connectors_found\<close> before it is
  sorted: the matches of the parallel patterns, then those of the sequential ones, each
  with its start, its end and its type (the matched text is never read and is left out).
  The sort is Python's stable sort on the start offset.
\<close>

definition find_connectors :: "string \<Rightarrow> (nat \<times> nat \<times> TaskType) list" where
  "find_connectors remaining =
     concat (map (\<lambda>pattern. map (\<lambda>(s, e). (s, e, PARALLEL)) (finditer pattern remaining))
               parallel_connectors) @
     concat (map (\<lambda>pattern. map (\<lambda>(s, e). (s, e, SEQUENTIAL)) (finditer pattern remaining))
               sequential_connectors)"

text \<open>\<open>s[i:j]\<close> for \<open>0 \<le> i\<close> and \<open>0 \<le> j\<close>.\<close>

definition slice :: "string \<Rightarrow> nat \<Rightarrow> nat \<Rightarrow> string" where
  "slice s i j = take (j - i) (drop i s)"

text \<open>
  The loop over the sorted connectors, on the state \<open>(segments, last_end)\<close>: the text
  between the end of the connector before and the start of this one becomes a segment
  when it is not blank; the first segment is always parallel.
\<close>

fun split_loop :: "string \<Rightarrow> (nat \<times> nat \<times> TaskType) list \<Rightarrow> (string \<times> TaskType) list \<Rightarrow> nat
    \<Rightarrow> (string \<times> TaskType) list \<times> nat" where
  "split_loop remaining [] segments last_end = (segments, last_end)"
| "split_loop remaining ((start, end, ty) # rest) segments last_end =
     (let segments' =
        (if start > last_end
         then (let segment = strip (slice remaining last_end start)
               in if segment \<noteq> []
                  then segments @ [(segment, if segments = [] then PARALLEL else ty)]
                  else segments)
         else segments)
      in split_loop remaining rest segments' end)"

definition split_instruction :: "string \<Rightarrow> (string \<times> TaskType) list" where
  "split_instruction text =
     (let remaining = text;
          connectors_found = sort_key fst (find_connectors remaining)
      in if connectors_found = [] then [(text, PARALLEL)]
         else
           (let (segments, last_end) = split_loop remaining connectors_found [] 0;
                segments' =
                  (if last_end < length remaining
                   then (let final_segment = strip (drop last_end remaining)
                         in if final_segment \<noteq> []
                            then segments @ [(final_segment, snd (snd (last connectors_found)))]
                            else segments)
                   else segments)
            in if segments' \<noteq> [] then segments' else [(text, PARALLEL)]))"

text \<open>\<open>str(n)\<close> for a natural number, and the f-string \<open>task_{i}\<close>.\<close>

fun str_of_nat :: "nat \<Rightarrow> string" where
  "str_of_nat n =
     (if n < 10 then [''0123456789'' ! n]
      else str_of_nat (n div 10) @ [''0123456789'' ! (n mod 10)])"

declare str_of_nat.simps [simp del]

definition task_name :: "nat \<Rightarrow> string" where
  "task_name i = ''task_'' @ str_of_nat i"

text \<open>
  \<open>parse\<close>. \<open>build_tasks i\<close> is the loop over \<open>enumerate(segments)\<close> from index \<open>i\<close> on.
\<close>

fun build_tasks :: "nat \<Rightarrow> (string \<times> TaskType) list \<Rightarrow> Task list" where
  "build_tasks i [] = []"
| "build_tasks i ((segment, connector_type) # rest) =
     \<lparr> task_id = task_name i,
       instruction = strip segment,
       task_type = connector_type,
       depends_on = (if connector_type = SEQUENTIAL \<and> i > 0 then [task_name (i - 1)] else []) \<rparr>
     # build_tasks (Suc i) rest"

definition parse :: "string \<Rightarrow> Task list" where
  "parse instr =
     (let text = strip instr
      in if \<not> is_multi_task text
         then [\<lparr> task_id = ''task_0'', instruction = text, task_type = PARALLEL, depends_on = [] \<rparr>]
         else build_tasks 0 (split_instruction text))"

text \<open>
  The dependency relation of a task list: a task's id is related to each id in its
  \<open>depends_on\<close>.
\<close>

definition dep_rel :: "Task list \<Rightarrow> (string \<times> string) set" where
  "dep_rel ts = {(task_id t, d) | t d. t \<in> set ts \<and> d \<in> set (depends_on t)}"

section \<open>Command router\<close>

text \<open>
  A command is a list of tokens or a shell line (the executor accepts both). The command
  library holds three dictionaries, kept as association lists in the order of the
  dictionary: lookups take the first entry that matches.
\<close>

datatype command = Tokens "string list" | Line string

record command_library =
  aliases :: "(string \<times> string) list"
  apps :: "(string \<times> command) list"
  workflows :: "(string \<times> command list) list"

datatype route_path = DICTATION | SHELL | GUI

record route_info =
  path :: route_path
  commands :: "command list option"

datatype error = ValueError string | Raised string

text \<open>\<open>s.split(sep)\<close> for a one-character separator, and \<open>s.split()\<close> on blanks.\<close>

fun split_on :: "char \<Rightarrow> string \<Rightarrow> string list" where
  "split_on sep [] = [[]]"
| "split_on sep (c # s) =
     (if c = sep then [] # split_on sep s
      else (case split_on sep s of w # ws \<Rightarrow> (c # w) # ws | [] \<Rightarrow> [[c]]))"

definition split_ws :: "string \<Rightarrow> string list" where
  "split_ws s = filter (\<lambda>w. w \<noteq> [])
     (split_on (CHR '' '') (map (\<lambda>c. if is_space c then CHR '' '' else c) s))"

definition replace_char :: "char \<Rightarrow> char \<Rightarrow> string \<Rightarrow> string" where
  "replace_char a b s = map (\<lambda>c. if c = a then b else c) s"

definition gui_keywords :: "string list" where
  "gui_keywords =
    [''click'', ''press'', ''compose'', ''scroll'', ''select'', ''button'',
     ''menu'', ''tab'', ''play'', ''pause'', ''submit'', ''open compose'']"

text \<open>
  \<open>_try_deterministic_match\<close>, one function for each of its three loops. \<open>shlex_split\<close>
  is \<open>shlex.split\<close>, which raises \<open>ValueError\<close> on a line it cannot read (\<open>None\<close> here).
\<close>

fun match_aliases :: "(string \<times> string) list \<Rightarrow> string \<Rightarrow> route_info option" where
  "match_aliases [] low = None"
| "match_aliases ((alias, url) # rest) low =
     (if contains low (lower alias) \<or>
         list_ex (\<lambda>word. contains low word) (split_on (CHR ''_'') (lower alias))
      then Some \<lparr>path = SHELL, commands = Some [Tokens [''open'', url]]\<rparr>
      else match_aliases rest low)"

fun match_apps :: "(string \<Rightarrow> string list option) \<Rightarrow> (string \<times> command) list \<Rightarrow> string
    \<Rightarrow> error + route_info option" where
  "match_apps shlex_split [] low = Inr None"
| "match_apps shlex_split ((app_key, cmd) # rest) low =
     (if contains low (lower app_key)
      then (case cmd of
              Tokens tokens \<Rightarrow> Inr (Some \<lparr>path = SHELL, commands = Some [Tokens tokens]\<rparr>)
            | Line l \<Rightarrow>
                (case shlex_split l of
                   None \<Rightarrow> Inl (ValueError l)
                 | Some tokens \<Rightarrow> Inr (Some \<lparr>path = SHELL, commands = Some [Tokens tokens]\<rparr>)))
      else match_apps shlex_split rest low)"

definition key_words :: "string \<Rightarrow> string list" where
  "key_words workflow_key = split_ws (replace_char (CHR ''_'') (CHR '' '') (lower workflow_key))"

text \<open>The condition of the \<open>if\<close> in the loop over the workflows.\<close>

definition workflow_matches :: "string \<Rightarrow> string \<Rightarrow> bool" where
  "workflow_matches workflow_key low =
     (list_ex (\<lambda>word. contains low word) (key_words workflow_key) \<and>
      length (filter (\<lambda>w. contains low w) (key_words workflow_key))
        \<ge> length (key_words workflow_key) div 2)"

fun match_workflows :: "(string \<times> command list) list \<Rightarrow> string \<Rightarrow> route_info option" where
  "match_workflows [] low = None"
| "match_workflows ((workflow_key, cmds) # rest) low =
     (if workflow_matches workflow_key low
      then Some \<lparr>path = SHELL, commands = Some cmds\<rparr>
      else match_workflows rest low)"

definition try_deterministic_match ::
    "(string \<Rightarrow> string list option) \<Rightarrow> command_library \<Rightarrow> string \<Rightarrow> error + route_info option" where
  "try_deterministic_match shlex_split command_library text =
     (let low = strip (lower text) in
      case match_aliases (aliases command_library) low of
        Some r \<Rightarrow> Inr (Some r)
      | None \<Rightarrow>
          (case match_apps shlex_split (apps command_library) low of
             Inl e \<Rightarrow> Inl e
           | Inr (Some r) \<Rightarrow> Inr (Some r)
           | Inr None \<Rightarrow> Inr (match_workflows (workflows command_library) low)))"

text \<open>
  \<open>route\<close>. \<open>generate_commands\<close> is the language model's answer for the instruction:
  \<open>None\<close> when the call raises, which the source turns into no commands.
\<close>

definition route ::
    "(string \<Rightarrow> string list option) \<Rightarrow> (string \<Rightarrow> command list option) \<Rightarrow> command_library
      \<Rightarrow> string \<Rightarrow> error + route_info" where
  "route shlex_split generate_commands command_library instr =
     (let text = strip instr; low = lower text in
      case try_deterministic_match shlex_split command_library text of
        Inl e \<Rightarrow> Inl e
      | Inr (Some deterministic_match) \<Rightarrow> Inr deterministic_match
      | Inr None \<Rightarrow>
          if list_ex (\<lambda>k. contains low k) gui_keywords
          then Inr \<lparr>path = GUI, commands = None\<rparr>
          else (let cmds = (case generate_commands text of None \<Rightarrow> [] | Some cs \<Rightarrow> cs) in
                if cmds \<noteq> [] then Inr \<lparr>path = SHELL, commands = Some cmds\<rparr>
                else Inr \<lparr>path = DICTATION, commands = None\<rparr>))"

section \<open>Shell executor\<close>

text \<open>
  What \<open>run\<close> reads from outside: \<open>shlex.split\<close>, the two path operations on the working
  directory, the child process (its result, or the text of the exception it raises) and
  the answer to the confirmation prompt.
\<close>

record proc_result =
  proc_returncode :: int
  proc_stdout :: string
  proc_stderr :: string

record shell_env =
  shlex_split :: "string \<Rightarrow> string list option"
  is_absolute :: "string \<Rightarrow> bool"
  path_join :: "string \<Rightarrow> string \<Rightarrow> string"
  subprocess_run :: "string list \<Rightarrow> string \<Rightarrow> string + proc_result"

datatype input_result = Response string | EOFError | KeyboardInterrupt

record cmd_result =
  cmd :: "string list"
  cwd :: string
  returncode :: int
  stdout :: string
  stderr :: string

text \<open>
  The value \<open>run\<close> returns, \<open>(ok, {"results": ..., "error": ...})\<close>, with the child processes
  it has started, in order: \<open>executed\<close> is the effect of the call.
\<close>

record run_result =
  ok :: bool
  results :: "cmd_result list"
  run_error :: "string option"
  executed :: "(string list \<times> string) list"

definition to_tokens :: "shell_env \<Rightarrow> command \<Rightarrow> error + string list" where
  "to_tokens env c =
     (case c of
        Tokens ts \<Rightarrow> Inr ts
      | Line l \<Rightarrow> (case shlex_split env l of None \<Rightarrow> Inl (ValueError l) | Some ts \<Rightarrow> Inr ts))"

text \<open>The comprehension \<open>[_to_tokens(cmd) for cmd in commands if _to_tokens(cmd)]\<close>.\<close>

fun token_commands :: "shell_env \<Rightarrow> command list \<Rightarrow> error + string list list" where
  "token_commands env [] = Inr []"
| "token_commands env (c # cs) =
     (case to_tokens env c of
        Inl e \<Rightarrow> Inl e
      | Inr ts \<Rightarrow>
          (case token_commands env cs of
             Inl e \<Rightarrow> Inl e
           | Inr rest \<Rightarrow> Inr (if ts \<noteq> [] then ts # rest else rest)))"

text \<open>
  The loop over the commands, on the state \<open>(cur_cwd, all_ok, results)\<close> and the processes
  started so far.
\<close>

fun run_loop :: "shell_env \<Rightarrow> command list \<Rightarrow> string \<Rightarrow> bool \<Rightarrow> cmd_result list
    \<Rightarrow> (string list \<times> string) list \<Rightarrow> error + run_result" where
  "run_loop env [] cur_cwd all_ok res ex =
     Inr \<lparr>ok = all_ok, results = res, run_error = None, executed = ex\<rparr>"
| "run_loop env (c # cs) cur_cwd all_ok res ex =
     (case to_tokens env c of
        Inl e \<Rightarrow> Inl e
      | Inr tokens \<Rightarrow>
          if tokens = [] then run_loop env cs cur_cwd all_ok res ex
          else if hd tokens = ''cd'' then
            (let new_dir = (if length tokens > 1 then tokens ! 1 else ''.'');
                 cur_cwd' = (if \<not> is_absolute env new_dir then path_join env cur_cwd new_dir
                             else new_dir)
             in run_loop env cs cur_cwd' all_ok
                  (res @ [\<lparr>cmd = tokens, cwd = cur_cwd', returncode = 0, stdout = [], stderr = []\<rparr>])
                  ex)
          else
            (case subprocess_run env tokens cur_cwd of
               Inr proc \<Rightarrow>
                 run_loop env cs cur_cwd (all_ok \<and> proc_returncode proc = 0)
                   (res @ [\<lparr>cmd = tokens, cwd = cur_cwd, returncode = proc_returncode proc,
                            stdout = proc_stdout proc, stderr = proc_stderr proc\<rparr>])
                   (ex @ [(tokens, cur_cwd)])
             | Inl e \<Rightarrow>
                 run_loop env cs cur_cwd False
                   (res @ [\<lparr>cmd = tokens, cwd = cur_cwd, returncode = - 1, stdout = [], stderr = e\<rparr>])
                   (ex @ [(tokens, cur_cwd)])))"

definition cancelled :: run_result where
  "cancelled = \<lparr>ok = False, results = [], run_error = Some ''User cancelled dangerous operation'',
     executed = []\<rparr>"

text \<open>\<open>cwd or self.base_cwd or "."\<close>: the first that is neither \<open>None\<close> nor empty.\<close>

definition first_cwd :: "string option \<Rightarrow> string option \<Rightarrow> string" where
  "first_cwd cwd0 base_cwd =
     (case cwd0 of
        Some d \<Rightarrow> if d \<noteq> [] then d else (case base_cwd of Some b \<Rightarrow> if b \<noteq> [] then b else ''.'' | None \<Rightarrow> ''.'')
      | None \<Rightarrow> (case base_cwd of Some b \<Rightarrow> if b \<noteq> [] then b else ''.'' | None \<Rightarrow> ''.''))"

text \<open>
  \<open>run\<close>. \<open>answer\<close> is what \<open>input(prompt)\<close> gives; it is read only when the safety gate
  fires.
\<close>

definition run :: "shell_env \<Rightarrow> string option \<Rightarrow> command list \<Rightarrow> string option \<Rightarrow> bool
    \<Rightarrow> input_result \<Rightarrow> error + run_result" where
  "run env base_cwd cmds cwd0 interactive answer =
     (let cur_cwd = first_cwd cwd0 base_cwd in
      case token_commands env cmds of
        Inl e \<Rightarrow> Inl e
      | Inr tcs \<Rightarrow>
          if interactive \<and> requires_confirmation tcs then
            (case answer of
               Response r \<Rightarrow>
                 (let response = lower (strip r) in
                  if response \<noteq> ''yes'' then Inr cancelled
                  else run_loop env cmds cur_cwd True [] [])
             | EOFError \<Rightarrow> Inr cancelled
             | KeyboardInterrupt \<Rightarrow> Inr cancelled)
          else run_loop env cmds cur_cwd True [] [])"

text \<open>
  An environment for the examples: \<open>shlex.split\<close> cuts at blanks, paths are POSIX paths
  and every child process exits with code 0 and no output.
\<close>

definition example_shell_env :: shell_env where
  "example_shell_env =
     \<lparr>shlex_split = (\<lambda>l. Some (split_ws l)),
      is_absolute = (\<lambda>p. take 1 p = ''/''),
      path_join = (\<lambda>a b. a @ ''/'' @ b),
      subprocess_run = (\<lambda>tokens d. Inr \<lparr>proc_returncode = 0, proc_stdout = [], proc_stderr = []\<rparr>)\<rparr>"

section \<open>GUI executor\<close>

text \<open>
  A target as the vision model gives it: \<open>vx\<close> and \<open>vy\<close> are the values of the keys \<open>x\<close> and
  \<open>y\<close> after \<open>int(...)\<close>, \<open>None\<close> when the key is absent; \<open>vlabel\<close> is \<open>t.get("label", "")\<close> and
  \<open>vconfidence\<close> is \<open>conf(t)\<close>. Confidences are read as real numbers.
\<close>

record vlm_target =
  vx :: "int option"
  vy :: "int option"
  vlabel :: string
  vconfidence :: real

text \<open>
  What one attempt reads from outside, in the order of the calls: each is the value
  returned or, on the left, the text of the exception raised. The recent images of the
  screen monitor and the sampling temperature only feed the vision model (the exceptions
  of the monitor are swallowed); its answers \<open>pred\<close> and \<open>v_pred\<close> stand for them.
\<close>

record attempt_io =
  before_cap :: "string + unit"
  pred :: "string + vlm_target list"
  verify_cap :: "string + unit"
  v_pred :: "string + vlm_target list"
  mouse_move :: "string + unit"
  click :: "string + unit"
  after_cap :: "string + unit"

text \<open>
  A distance as \<open>math.hypot\<close> returns it: a float, read as the real number it stands for,
  or the float infinity. \<open>within_radius d r\<close> is the comparison \<open>d <= r\<close> with an integer and
  \<open>closer a b\<close> the comparison \<open>a < b\<close> of two distances.
\<close>

datatype distance = Dist real | Infinite

definition within_radius :: "distance \<Rightarrow> int \<Rightarrow> bool" where
  "within_radius d r = (case d of Dist v \<Rightarrow> v \<le> real_of_int r | Infinite \<Rightarrow> False)"

definition closer :: "distance \<Rightarrow> distance \<Rightarrow> bool" where
  "closer a b =
     (case a of
        Dist v \<Rightarrow> (case b of Dist w \<Rightarrow> v < w | Infinite \<Rightarrow> True)
      | Infinite \<Rightarrow> False)"

text \<open>
  \<open>hypot dx dy\<close> is \<open>math.hypot(dx, dy)\<close> on two integers: the float it returns, or the
  text of the exception it raises (an integer too large for a float).
\<close>

record gui_env =
  attempt_env :: "nat \<Rightarrow> attempt_io"
  hypot :: "int \<Rightarrow> int \<Rightarrow> string + distance"
  keyboard_new :: "string + unit"
  keyboard_press :: "string + unit"

text \<open>The dictionary \<open>out\<close>; \<open>screenshots\<close> holds the keys of \<open>out["screenshots"]\<close>.\<close>

record gui_out =
  success :: bool
  target :: "(int \<times> int \<times> string \<times> real) option"
  screenshots :: "string list"
  gui_error :: string
  retries_used :: nat
  mouse_move_from :: "(int \<times> int) option"
  mouse_click_at :: "(int \<times> int) option"
  fallback :: "string option"

text \<open>
  The calls \<open>execute\<close> makes, in order: screen captures with their prefix, queries of the
  vision model, clicks, entries into \<open>_fallback_keyboard_action\<close> and the shortcuts it
  presses. \<open>MouseMove\<close> is the assignment to \<open>mouse.position\<close>.
\<close>

datatype gui_call =
    CaptureFullscreen string
  | SuggestTargets
  | MouseMove int int
  | MouseClick int int
  | FallbackKeyboardAction
  | Shortcut char

record gui_state =
  out :: gui_out
  mouse :: "int \<times> int"
  calls :: "gui_call list"

datatype loop_result = Continue | Return

text \<open>\<open>max(xs, key=f)\<close>: the first of the largest.\<close>

definition max_by :: "('a \<Rightarrow> real) \<Rightarrow> 'a \<Rightarrow> 'a list \<Rightarrow> 'a" where
  "max_by f x xs = foldl (\<lambda>b t. if f t > f b then t else b) x xs"

text \<open>\<open>(int(t.get("x", 0)), int(t.get("y", 0)))\<close>.\<close>

definition point0 :: "vlm_target \<Rightarrow> int \<times> int" where
  "point0 t = ((case vx t of Some v \<Rightarrow> v | None \<Rightarrow> 0), (case vy t of Some v \<Rightarrow> v | None \<Rightarrow> 0))"

definition best_target :: "vlm_target list \<Rightarrow> vlm_target" where
  "best_target targets = max_by vconfidence (hd targets) (tl targets)"

text \<open>\<open>_dist(a, b)\<close>.\<close>

definition point_dist :: "gui_env \<Rightarrow> int \<times> int \<Rightarrow> int \<times> int \<Rightarrow> string + distance" where
  "point_dist env a b = hypot env (fst a - fst b) (snd a - snd b)"

text \<open>
  The loop that looks for a verification target near the chosen point \<open>p\<close>: it stops at
  the first one within the radius, or at the first distance that raises.
\<close>

fun near_any :: "gui_env \<Rightarrow> vlm_target list \<Rightarrow> int \<times> int \<Rightarrow> int \<Rightarrow> string + bool" where
  "near_any env [] p verify_radius = Inr False"
| "near_any env (t # ts) p verify_radius =
     (case point_dist env (point0 t) p of
        Inl e \<Rightarrow> Inl e
      | Inr d \<Rightarrow> if within_radius d verify_radius then Inr True
                 else near_any env ts p verify_radius)"

text \<open>
  \<open>min(v_targets, key=...)\<close>: the keys are the distances to \<open>p\<close>, computed in order (the
  first that raises ends the call), and the result is the first target of the smallest
  key.
\<close>

fun keyed :: "gui_env \<Rightarrow> int \<times> int \<Rightarrow> vlm_target list \<Rightarrow> string + (vlm_target \<times> distance) list" where
  "keyed env p [] = Inr []"
| "keyed env p (t # ts) =
     (case point_dist env (point0 t) p of
        Inl e \<Rightarrow> Inl e
      | Inr d \<Rightarrow> (case keyed env p ts of Inl e \<Rightarrow> Inl e | Inr ks \<Rightarrow> Inr ((t, d) # ks)))"

definition min_key :: "(vlm_target \<times> distance) \<Rightarrow> (vlm_target \<times> distance) list
    \<Rightarrow> (vlm_target \<times> distance)" where
  "min_key k ks = foldl (\<lambda>b t. if closer (snd t) (snd b) then t else b) k ks"

text \<open>
  The point taken from a verification target, \<open>(int(closest.get("x", tx)),
  int(closest.get("y", ty)))\<close>: a coordinate the target lacks is the one of \<open>p\<close>.
\<close>

definition point_or :: "vlm_target \<Rightarrow> int \<times> int \<Rightarrow> int \<times> int" where
  "point_or t p =
     ((case vx t of Some v \<Rightarrow> v | None \<Rightarrow> fst p), (case vy t of Some v \<Rightarrow> v | None \<Rightarrow> snd p))"

definition closest_point :: "gui_env \<Rightarrow> vlm_target list \<Rightarrow> int \<times> int \<Rightarrow> string + int \<times> int" where
  "closest_point env v_targets p =
     (case keyed env p v_targets of
        Inl e \<Rightarrow> Inl e
      | Inr ks \<Rightarrow> (let closest = fst (min_key (hd ks) (tl ks)) in Inr (point_or closest p)))"

definition add_key :: "string \<Rightarrow> string list \<Rightarrow> string list" where
  "add_key k ks = (if k \<in> set ks then ks else ks @ [k])"

definition log_call :: "gui_call \<Rightarrow> gui_state \<Rightarrow> gui_state" where
  "log_call c s = s\<lparr>calls := calls s @ [c]\<rparr>"

definition shot :: "string \<Rightarrow> gui_state \<Rightarrow> gui_state" where
  "shot k s = s\<lparr>out := (out s)\<lparr>screenshots := add_key k (screenshots (out s))\<rparr>\<rparr>"

text \<open>The handler \<open>except Exception as e\<close> of the loop body.\<close>

definition on_exception :: "nat \<Rightarrow> nat \<Rightarrow> gui_state \<Rightarrow> string \<Rightarrow> loop_result \<times> gui_state" where
  "on_exception attempt max_retries s e =
     (if attempt = max_retries - 1 then (Return, s\<lparr>out := (out s)\<lparr>gui_error := e\<rparr>\<rparr>)
      else (Continue, s))"

text \<open>
  \<open>_fallback_keyboard_action\<close>. Making the keyboard controller is outside its \<open>try\<close>: an
  exception there reaches the handler of the loop body.
\<close>

definition press_shortcut :: "gui_env \<Rightarrow> char \<Rightarrow> string \<Rightarrow> gui_state \<Rightarrow> gui_state" where
  "press_shortcut env k name s =
     (case keyboard_press env of
        Inl e \<Rightarrow> s\<lparr>out := (out s)\<lparr>gui_error := ''fallback_failed: '' @ e\<rparr>\<rparr>
      | Inr _ \<Rightarrow> (log_call (Shortcut k) s)\<lparr>out := (out s)\<lparr>success := True, fallback := Some name\<rparr>\<rparr>)"

definition fallback_keyboard_action :: "gui_env \<Rightarrow> string \<Rightarrow> gui_state \<Rightarrow> string + gui_state" where
  "fallback_keyboard_action env instr s0 =
     (let s = log_call FallbackKeyboardAction s0 in
      case keyboard_new env of
        Inl e \<Rightarrow> Inl e
      | Inr _ \<Rightarrow>
          (let low_instruction = lower instr in
           if contains low_instruction ''compose'' \<or> contains low_instruction ''new''
           then Inr (press_shortcut env (CHR ''n'') ''keyboard_shortcut_cmd_n'' s)
           else if contains low_instruction ''save''
           then Inr (press_shortcut env (CHR ''s'') ''keyboard_shortcut_cmd_s'' s)
           else if contains low_instruction ''copy''
           then Inr (press_shortcut env (CHR ''c'') ''keyboard_shortcut_cmd_c'' s)
           else if contains low_instruction ''paste''
           then Inr (press_shortcut env (CHR ''v'') ''keyboard_shortcut_cmd_v'' s)
           else Inr (s\<lparr>out := (out s)\<lparr>gui_error := ''no_fallback_available''\<rparr>\<rparr>)))"

text \<open>
  The steps of the loop body after the candidate is chosen: verification and click.
  \<open>p\<close> is the chosen point \<open>(tx, ty)\<close>. The pointer is read and moved before the click: a
  click that raises leaves it moved.
\<close>

definition act :: "attempt_io \<Rightarrow> nat \<Rightarrow> nat \<Rightarrow> int \<times> int \<Rightarrow> gui_state \<Rightarrow> loop_result \<times> gui_state" where
  "act io attempt max_retries p s =
     (case mouse_move io of
        Inl e \<Rightarrow> on_exception attempt max_retries s e
      | Inr _ \<Rightarrow>
          (let prev_pos = mouse s;
               s1 = (log_call (MouseMove (fst p) (snd p)) s)\<lparr>mouse := p\<rparr>
           in case click io of
                Inl e \<Rightarrow> on_exception attempt max_retries s1 e
              | Inr _ \<Rightarrow>
                  (let s2 = log_call (CaptureFullscreen ''after'')
                              (log_call (MouseClick (fst p) (snd p)) s1)
                   in case after_cap io of
                        Inl e \<Rightarrow> on_exception attempt max_retries s2 e
                      | Inr _ \<Rightarrow>
                          (let s3 = shot ''after'' s2
                           in (Return, s3\<lparr>out := (out s3)\<lparr>success := True,
                                          mouse_move_from := Some prev_pos,
                                          mouse_click_at := Some p,
                                          retries_used := attempt\<rparr>\<rparr>)))))"

definition verify :: "gui_env \<Rightarrow> attempt_io \<Rightarrow> int \<Rightarrow> nat \<Rightarrow> nat \<Rightarrow> int \<times> int \<Rightarrow> gui_state
    \<Rightarrow> loop_result \<times> gui_state" where
  "verify env io verify_radius attempt max_retries p s0 =
     (let s = log_call (CaptureFullscreen ''verify'') s0 in
      case verify_cap io of
        Inl e \<Rightarrow> on_exception attempt max_retries s e
      | Inr _ \<Rightarrow>
          (let s1 = log_call SuggestTargets (shot ''verify'' s) in
           case v_pred io of
             Inl e \<Rightarrow> on_exception attempt max_retries s1 e
           | Inr v_targets \<Rightarrow>
               (case near_any env v_targets p verify_radius of
                  Inl e \<Rightarrow> on_exception attempt max_retries s1 e
                | Inr near \<Rightarrow>
                    if \<not> near \<and> v_targets \<noteq> [] \<and> attempt < max_retries - 1 then (Continue, s1)
                    else if \<not> near \<and> v_targets \<noteq> []
                    then (case closest_point env v_targets p of
                            Inl e \<Rightarrow> on_exception attempt max_retries s1 e
                          | Inr q \<Rightarrow> act io attempt max_retries q s1)
                    else act io attempt max_retries p s1)))"

text \<open>One pass of the loop body, for the attempt number \<open>attempt\<close>.\<close>

definition attempt_body :: "gui_env \<Rightarrow> string \<Rightarrow> int \<Rightarrow> nat \<Rightarrow> nat \<Rightarrow> gui_state
    \<Rightarrow> loop_result \<times> gui_state" where
  "attempt_body env instr verify_radius max_retries attempt s0 =
     (let io = attempt_env env attempt;
          prefix = (if attempt = 0 then ''before'' else if attempt = 1 then ''retry1'' else ''retry2'');
          s = log_call (CaptureFullscreen prefix) s0
      in case before_cap io of
           Inl e \<Rightarrow> on_exception attempt max_retries s e
         | Inr _ \<Rightarrow>
             (let s1 = log_call SuggestTargets (shot (''attempt_'' @ str_of_nat attempt) s) in
              case pred io of
                Inl e \<Rightarrow> on_exception attempt max_retries s1 e
              | Inr targets \<Rightarrow>
                  if targets = [] then
                    (if attempt = max_retries - 1 then
                       (case fallback_keyboard_action env instr s1 of
                          Inl e \<Rightarrow> on_exception attempt max_retries
                                     (log_call FallbackKeyboardAction s1) e
                        | Inr s2 \<Rightarrow> (Return, s2))
                     else (Continue, s1))
                  else
                    (let best = best_target targets; confidence = vconfidence best in
                     if attempt < 2 \<and> confidence < 0.5 then (Continue, s1)
                     else
                       (let p = point0 best;
                            s2 = s1\<lparr>out := (out s1)\<lparr>target :=
                                   Some (fst p, snd p, vlabel best, confidence)\<rparr>\<rparr>
                        in verify env io verify_radius attempt max_retries p s2))))"

text \<open>
  The loop \<open>for attempt in range(max_retries)\<close>: \<open>n\<close> passes are left, and the code after
  the loop when none is.
\<close>

fun attempt_loop :: "gui_env \<Rightarrow> string \<Rightarrow> int \<Rightarrow> nat \<Rightarrow> nat \<Rightarrow> nat \<Rightarrow> gui_state \<Rightarrow> gui_state" where
  "attempt_loop env instr verify_radius max_retries 0 attempt s =
     s\<lparr>out := (out s)\<lparr>gui_error := ''max_retries_exceeded'', retries_used := max_retries\<rparr>\<rparr>"
| "attempt_loop env instr verify_radius max_retries (Suc n) attempt s =
     (case attempt_body env instr verify_radius max_retries attempt s of
        (Return, s') \<Rightarrow> s'
      | (Continue, s') \<Rightarrow> attempt_loop env instr verify_radius max_retries n (Suc attempt) s')"

definition initial_gui_state :: "int \<times> int \<Rightarrow> gui_state" where
  "initial_gui_state pos =
     \<lparr>out = \<lparr>success = False, target = None, screenshots = [], gui_error = [],
             retries_used = 0, mouse_move_from = None, mouse_click_at = None, fallback = None\<rparr>,
      mouse = pos, calls = []\<rparr>"

text \<open>\<open>execute\<close>: \<open>pos\<close> is where the pointer is when it is called.\<close>

definition execute :: "gui_env \<Rightarrow> int \<times> int \<Rightarrow> string \<Rightarrow> int \<Rightarrow> nat \<Rightarrow> gui_state" where
  "execute env pos instr verify_radius max_retries =
     attempt_loop env instr verify_radius max_retries max_retries 0 (initial_gui_state pos)"

text \<open>
  Environments for the examples: a script of attempts in which no call raises, with the
  exact distance for \<open>math.hypot\<close>.
\<close>

definition attempt_ok :: "vlm_target list \<Rightarrow> vlm_target list \<Rightarrow> attempt_io" where
  "attempt_ok p v =
     \<lparr>before_cap = Inr (), pred = Inr p, verify_cap = Inr (), v_pred = Inr v,
      mouse_move = Inr (), click = Inr (), after_cap = Inr ()\<rparr>"

definition exact_hypot :: "int \<Rightarrow> int \<Rightarrow> string + distance" where
  "exact_hypot dx dy = Inr (Dist (sqrt (real_of_int (dx * dx + dy * dy))))"

declare exact_hypot_def [code del]

definition scripted_env :: "attempt_io list \<Rightarrow> gui_env" where
  "scripted_env ios =
     \<lparr>attempt_env = (\<lambda>i. if i < length ios then ios ! i else attempt_ok [] []),
      hypot = exact_hypot,
      keyboard_new = Inr (), keyboard_press = Inr ()\<rparr>"

definition target_at :: "int \<Rightarrow> int \<Rightarrow> real \<Rightarrow> vlm_target" where
  "target_at a b c = \<lparr>vx = Some a, vy = Some b, vlabel = ''Send'', vconfidence = c\<rparr>"

section \<open>Task orchestrator\<close>

datatype TaskStatus = PENDING | RUNNING | COMPLETED | FAILED

text \<open>
  The dictionary a worker returns holds the path taken and the success flag (the
  details of each modality are left out). Time stamps are read as real numbers.
\<close>

record task_result =
  result_path :: route_path
  result_success :: bool

record TaskExecution =
  task :: Task
  status :: TaskStatus
  result :: "task_result option"
  error :: "string option"
  started_at :: "real option"
  completed_at :: "real option"

text \<open>
  A dictionary with string keys, in insertion order: \<open>d[k] = v\<close> replaces the value of a key
  that is present and appends a new key; \<open>map_of\<close> looks a key up.
\<close>

fun dict_set :: "string \<Rightarrow> 'v \<Rightarrow> (string \<times> 'v) list \<Rightarrow> (string \<times> 'v) list" where
  "dict_set k v [] = [(k, v)]"
| "dict_set k v ((k', v') # d) = (if k' = k then (k, v) # d else (k', v') # dict_set k v d)"

text \<open>A write to a field of the object stored under \<open>k\<close>.\<close>

definition update_entry :: "string \<Rightarrow> ('v \<Rightarrow> 'v) \<Rightarrow> (string \<times> 'v) list \<Rightarrow> (string \<times> 'v) list" where
  "update_entry k f d = map (\<lambda>(k', v). if k' = k then (k', f v) else (k', v)) d"

subsection \<open>The execution summary\<close>

record summary =
  total_tasks :: nat
  completed :: nat
  failed :: nat
  running :: nat
  pending :: nat
  total_execution_time :: "real option"

text \<open>The truth value of an optional float, and \<open>t or 0\<close>.\<close>

definition truthy :: "real option \<Rightarrow> bool" where
  "truthy t = (case t of None \<Rightarrow> False | Some v \<Rightarrow> v \<noteq> 0)"

definition or0 :: "real option \<Rightarrow> real" where
  "or0 t = (case t of None \<Rightarrow> 0 | Some v \<Rightarrow> if v \<noteq> 0 then v else 0)"

definition count_status :: "TaskStatus \<Rightarrow> (string \<times> TaskExecution) list \<Rightarrow> nat" where
  "count_status s executions = length (filter (\<lambda>e. status e = s) (map snd executions))"

definition get_execution_summary :: "(string \<times> TaskExecution) list \<Rightarrow> summary" where
  "get_execution_summary executions =
     (let n_completed = count_status COMPLETED executions in
      \<lparr>total_tasks = length executions,
       completed = n_completed,
       failed = count_status FAILED executions,
       running = count_status RUNNING executions,
       pending = count_status PENDING executions,
       total_execution_time =
         (if n_completed > 0
          then Some (sum_list (map (\<lambda>e. or0 (completed_at e) - or0 (started_at e))
                 (filter (\<lambda>e. truthy (completed_at e) \<and> truthy (started_at e))
                    (map snd executions))))
          else None)\<rparr>)"

subsection \<open>Running a task list\<close>

text \<open>
  \<open>execute_tasks\<close> runs in the main thread; the tasks it submits run in the threads of the
  pool. The state holds the dictionary \<open>self.executions\<close>, the work items of the pool in
  the order of their submission, each queued, running in a thread or finished with the
  exception raised or the value returned, the dictionary \<open>futures\<close> from task ids to work
  items, and the place the main thread has reached: the loop that submits (the tasks not
  yet submitted, the first one in \<open>_wait_for_dependencies\<close>), the loop that collects (the
  items of \<open>futures\<close> not yet collected), or the return.
\<close>

datatype worker_phase = Queued | Active | Finished "string + task_result"

record worker =
  w_task :: Task
  phase :: worker_phase

datatype main_pc = Submitting "Task list" | Collecting "(string \<times> nat) list" | Returned

record orchestrator =
  executions :: "(string \<times> TaskExecution) list"
  workers :: "worker list"
  futures :: "(string \<times> nat) list"
  pc :: main_pc

text \<open>The first loop of \<open>execute_tasks\<close>: one pending record for each task.\<close>

fun init_executions :: "(string \<times> TaskExecution) list \<Rightarrow> Task list \<Rightarrow> (string \<times> TaskExecution) list" where
  "init_executions ex [] = ex"
| "init_executions ex (t # ts) =
     init_executions
       (dict_set (task_id t)
          \<lparr>task = t, status = PENDING, result = None, error = None, started_at = None,
           completed_at = None\<rparr> ex)
       ts"

text \<open>
  The state when the submit loop starts: \<open>ex0\<close> is \<open>self.executions\<close> at the call, and the
  pool holds no work item of an earlier call.
\<close>

definition init_config :: "(string \<times> TaskExecution) list \<Rightarrow> Task list \<Rightarrow> orchestrator" where
  "init_config ex0 tasks =
     \<lparr>executions = init_executions ex0 tasks, workers = [], futures = [], pc = Submitting tasks\<rparr>"

text \<open>
  One pass of the \<open>for\<close> loop in \<open>_wait_for_dependencies\<close>: false at the first dependency
  that has a record whose status is neither completed nor failed.
\<close>

fun all_deps_done :: "(string \<times> TaskExecution) list \<Rightarrow> string list \<Rightarrow> bool" where
  "all_deps_done ex [] = True"
| "all_deps_done ex (dep_id # rest) =
     (case map_of ex dep_id of
        Some e \<Rightarrow> if status e \<noteq> COMPLETED \<and> status e \<noteq> FAILED then False
                  else all_deps_done ex rest
      | None \<Rightarrow> all_deps_done ex rest)"

text \<open>
  What can happen next. \<open>MainStep\<close>: the main thread goes on, by one pass of the polling
  loop (with the submission when the pass succeeds), by the end of the submit loop, by
  the collection of a finished future or by the return. \<open>WorkerStart i t\<close>: a thread of the
  pool takes the work item \<open>i\<close> at time \<open>t\<close> and runs the first lines of
  \<open>_execute_single_task\<close>. \<open>WorkerFinish i r t\<close>: the routing and the action of the item \<open>i\<close>
  end at time \<open>t\<close> with the exception or the value \<open>r\<close>. \<open>FutureTimeout\<close>: the wait of the
  main thread for the future it collects ends by its timeout.
\<close>

datatype event =
    MainStep
  | WorkerStart nat real
  | WorkerFinish nat "string + task_result" real
  | FutureTimeout

definition main_step :: "orchestrator \<Rightarrow> orchestrator option" where
  "main_step c =
     (case pc c of
        Submitting [] \<Rightarrow> Some (c\<lparr>pc := Collecting (futures c)\<rparr>)
      | Submitting (t # ts) \<Rightarrow>
          if all_deps_done (executions c) (depends_on t)
          then Some (c\<lparr>workers := workers c @ [\<lparr>w_task = t, phase = Queued\<rparr>],
                       futures := dict_set (task_id t) (length (workers c)) (futures c),
                       pc := Submitting ts\<rparr>)
          else Some c
      | Collecting [] \<Rightarrow> Some (c\<lparr>pc := Returned\<rparr>)
      | Collecting ((tid, i) # rest) \<Rightarrow>
          (case phase (workers c ! i) of
             Finished (Inr r) \<Rightarrow>
               Some (c\<lparr>executions :=
                          update_entry tid (\<lambda>e. e\<lparr>result := Some r, status := COMPLETED\<rparr>)
                            (executions c),
                       pc := Collecting rest\<rparr>)
           | Finished (Inl e) \<Rightarrow>
               Some (c\<lparr>executions :=
                          update_entry tid (\<lambda>x. x\<lparr>error := Some e, status := FAILED\<rparr>)
                            (executions c),
                       pc := Collecting rest\<rparr>)
           | Queued \<Rightarrow> None
           | Active \<Rightarrow> None)
      | Returned \<Rightarrow> None)"

text \<open>
  The pool takes its work items in the order of their submission and runs at most
  \<open>max_workers\<close> of them at a time.
\<close>

definition can_start :: "nat \<Rightarrow> orchestrator \<Rightarrow> nat \<Rightarrow> bool" where
  "can_start max_workers c i =
     (i < length (workers c) \<and> phase (workers c ! i) = Queued \<and>
      (\<forall>j < i. phase (workers c ! j) \<noteq> Queued) \<and>
      length (filter (\<lambda>w. phase w = Active) (workers c)) < max_workers)"

definition step :: "nat \<Rightarrow> event \<Rightarrow> orchestrator \<Rightarrow> orchestrator option" where
  "step max_workers ev c =
     (case ev of
        MainStep \<Rightarrow> main_step c
      | WorkerStart i t \<Rightarrow>
          if can_start max_workers c i
          then Some (c\<lparr>workers := (workers c)[i := (workers c ! i)\<lparr>phase := Active\<rparr>],
                       executions :=
                         update_entry (task_id (w_task (workers c ! i)))
                           (\<lambda>e. e\<lparr>status := RUNNING, started_at := Some t\<rparr>) (executions c)\<rparr>)
          else None
      | WorkerFinish i r t \<Rightarrow>
          if i < length (workers c) \<and> phase (workers c ! i) = Active
          then Some (c\<lparr>workers := (workers c)[i := (workers c ! i)\<lparr>phase := Finished r\<rparr>],
                       executions :=
                         update_entry (task_id (w_task (workers c ! i)))
                           (\<lambda>e. e\<lparr>completed_at := Some t\<rparr>) (executions c)\<rparr>)
          else None
      | FutureTimeout \<Rightarrow>
          (case pc c of
             Collecting ((tid, i) # rest) \<Rightarrow>
               (case phase (workers c ! i) of
                  Finished r \<Rightarrow> None
                | Queued \<Rightarrow>
                    Some (c\<lparr>executions :=
                               update_entry tid (\<lambda>x. x\<lparr>error := Some [], status := FAILED\<rparr>)
                                 (executions c),
                            pc := Collecting rest\<rparr>)
                | Active \<Rightarrow>
                    Some (c\<lparr>executions :=
                               update_entry tid (\<lambda>x. x\<lparr>error := Some [], status := FAILED\<rparr>)
                                 (executions c),
                            pc := Collecting rest\<rparr>))
           | Collecting [] \<Rightarrow> None
           | Submitting ts \<Rightarrow> None
           | Returned \<Rightarrow> None))"

text \<open>A schedule is a list of events; it runs as long as each event can happen.\<close>

fun run_schedule :: "nat \<Rightarrow> event list \<Rightarrow> orchestrator \<Rightarrow> orchestrator option" where
  "run_schedule max_workers [] c = Some c"
| "run_schedule max_workers (ev # evs) c =
     (case step max_workers ev c of None \<Rightarrow> None | Some c' \<Rightarrow> run_schedule max_workers evs c')"

definition status_of :: "orchestrator \<Rightarrow> string \<Rightarrow> TaskStatus option" where
  "status_of c tid = map_option status (map_of (executions c) tid)"

text \<open>
  The records after a run of the two tasks of \<open>a and b\<close>: the first returned after two
  seconds, the second raised after one.
\<close>

definition example_executions :: "(string \<times> TaskExecution) list" where
  "example_executions =
     [(''task_0'',
       \<lparr>task = \<lparr>task_id = ''task_0'', instruction = ''a'', task_type = PARALLEL, depends_on = []\<rparr>,
        status = COMPLETED, result = Some \<lparr>result_path = SHELL, result_success = True\<rparr>,
        error = None, started_at = Some 1, completed_at = Some 3\<rparr>),
      (''task_1'',
       \<lparr>task = \<lparr>task_id = ''task_1'', instruction = ''b'', task_type = PARALLEL, depends_on = []\<rparr>,
        status = FAILED, result = None, error = Some ''boom'',
        started_at = Some 1, completed_at = Some 2\<rparr>)]"

definition example_schedule :: "event list" where
  "example_schedule =
     [MainStep, MainStep, MainStep, WorkerStart 0 1, WorkerStart 1 1,
      WorkerFinish 1 (Inl ''boom'') 2,
      WorkerFinish 0 (Inr \<lparr>result_path = SHELL, result_success = True\<rparr>) 3,
      MainStep, MainStep, MainStep]"

subsection \<open>The invariant of a run\<close>








section \<open>Properties of the safety manager\<close>

text \<open>
  C10. For every list of token-command lists, \<open>filter_safe_commands\<close> returns a
  subsequence of its input, \<open>requires_confirmation\<close> is false on its output, and the
  entries it removes are exactly those that alone trigger the confirmation gate.
\<close>

theorem filter_safe_commands_safe:
  "subseq (filter_safe_commands cmds) cmds \<and>
   \<not> requires_confirmation (filter_safe_commands cmds) \<and>
   filter_safe_commands cmds = filter (\<lambda>c. \<not> requires_confirmation [c]) cmds"
proof -
  have flt: "filter_safe_commands cs = filter (\<lambda>c. \<not> requires_confirmation [c]) cs" for cs
    by (induction cs) (simp_all add: Let_def)
  have safe: "\<not> requires_confirmation (filter (\<lambda>c. \<not> requires_confirmation [c]) cs)" for cs
    by (induction cs) (simp_all add: Let_def)
  have "subseq (filter (\<lambda>c. \<not> requires_confirmation [c]) cmds) cmds"
    by (rule subseq_filter_left)
  with flt [of cmds] safe [of cmds] show ?thesis by simp
qed

text \<open>
  The batch of the source's own example: the destructive delete and the shutdown are
  dropped, the listing is kept.
\<close>

theorem filter_safe_commands_safe_witness:
  "filter_safe_commands [[''ls'', ''-la''], [''rm'', ''-rf'', ''/''], [''sudo'', ''shutdown'']]
     = [[''ls'', ''-la'']] \<and>
   subseq (filter_safe_commands [[''ls'', ''-la''], [''rm'', ''-rf'', ''/''], [''sudo'', ''shutdown'']])
     [[''ls'', ''-la''], [''rm'', ''-rf'', ''/''], [''sudo'', ''shutdown'']] \<and>
   \<not> requires_confirmation
     (filter_safe_commands [[''ls'', ''-la''], [''rm'', ''-rf'', ''/''], [''sudo'', ''shutdown'']])"
proof -
  have e: "filter_safe_commands [[''ls'', ''-la''], [''rm'', ''-rf'', ''/''], [''sudo'', ''shutdown'']]
     = [[''ls'', ''-la'']]"
    by code_simp
  show ?thesis
    using filter_safe_commands_safe
      [of "[[''ls'', ''-la''], [''rm'', ''-rf'', ''/''], [''sudo'', ''shutdown'']]"] e
    by blast
qed

section \<open>Properties of the task parser\<close>

subsection \<open>Task ids are distinct\<close>

lemma digit_inj:
  assumes "a < 10" "b < 10" "''0123456789'' ! a = ''0123456789'' ! b"
  shows "a = b"
proof -
  have A: "a = 0 \<or> a = 1 \<or> a = 2 \<or> a = 3 \<or> a = 4 \<or> a = 5 \<or> a = 6 \<or> a = 7 \<or> a = 8 \<or> a = 9"
    using assms(1) by arith
  have B: "b = 0 \<or> b = 1 \<or> b = 2 \<or> b = 3 \<or> b = 4 \<or> b = 5 \<or> b = 6 \<or> b = 7 \<or> b = 8 \<or> b = 9"
    using assms(2) by arith
  show ?thesis using A B assms(3) by (elim disjE) simp_all
qed

lemma str_of_nat_nonempty: "str_of_nat n \<noteq> []"
  by (subst str_of_nat.simps) simp

lemma str_of_nat_small: "n < 10 \<Longrightarrow> str_of_nat n = [''0123456789'' ! n]"
  by (subst str_of_nat.simps) simp

lemma str_of_nat_big:
  "\<not> n < 10 \<Longrightarrow> str_of_nat n = str_of_nat (n div 10) @ [''0123456789'' ! (n mod 10)]"
  by (subst str_of_nat.simps) simp

lemma str_of_nat_inj: "str_of_nat n = str_of_nat m \<Longrightarrow> n = m"
proof (induction n arbitrary: m rule: str_of_nat.induct)
  case (1 n)
  show ?case
  proof (cases "n < 10")
    case True
    show ?thesis
    proof (cases "m < 10")
      case m: True
      from "1.prems" have "''0123456789'' ! n = ''0123456789'' ! m"
        by (simp add: str_of_nat_small [OF True] str_of_nat_small [OF m])
      with True m show ?thesis by (rule digit_inj)
    next
      case m: False
      from "1.prems" str_of_nat_nonempty [of "m div 10"] have "False"
        by (simp add: str_of_nat_small [OF True] str_of_nat_big [OF m])
      then show ?thesis ..
    qed
  next
    case False
    show ?thesis
    proof (cases "m < 10")
      case m: True
      from "1.prems" str_of_nat_nonempty [of "n div 10"] have "False"
        by (simp add: str_of_nat_small [OF m] str_of_nat_big [OF False])
      then show ?thesis ..
    next
      case m: False
      from "1.prems"
      have e: "str_of_nat (n div 10) = str_of_nat (m div 10)"
        and d: "''0123456789'' ! (n mod 10) = ''0123456789'' ! (m mod 10)"
        by (simp_all add: str_of_nat_big [OF m] str_of_nat_big [OF False])
      from "1.IH" [OF False e] have q: "n div 10 = m div 10" .
      have r: "n mod 10 = m mod 10" by (rule digit_inj [OF _ _ d]) simp_all
      from q r show ?thesis by (metis div_mult_mod_eq)
    qed
  qed
qed

lemma task_name_inj: "task_name i = task_name j \<Longrightarrow> i = j"
  by (simp add: task_name_def str_of_nat_inj)

lemma length_build_tasks: "length (build_tasks i segs) = length segs"
  by (induction i segs rule: build_tasks.induct) simp_all

lemma nth_build_tasks:
  "j < length segs \<Longrightarrow>
   build_tasks i segs ! j =
     \<lparr> task_id = task_name (i + j),
       instruction = strip (fst (segs ! j)),
       task_type = snd (segs ! j),
       depends_on = (if snd (segs ! j) = SEQUENTIAL \<and> i + j > 0 then [task_name (i + j - 1)] else []) \<rparr>"
proof (induction i segs arbitrary: j rule: build_tasks.induct)
  case (1 i)
  then show ?case by simp
next
  case (2 i segment connector_type rest)
  show ?case
  proof (cases j)
    case 0
    then show ?thesis by simp
  next
    case (Suc k)
    with "2.prems" have "k < length rest" by simp
    from "2.IH" [OF this] Suc show ?thesis by simp
  qed
qed


lemma task_name_0: "task_name 0 = ''task_0''"
  by (simp add: task_name_def str_of_nat_small)

lemma inv_task_name: "inv task_name (task_name i) = i"
  by (rule inv_f_f) (auto intro: injI dest: task_name_inj)

lemma chain_well_formed:
  assumes ids: "\<And>j. j < length ts \<Longrightarrow> task_id (ts ! j) = task_name j"
    and deps: "\<And>j. j < length ts \<Longrightarrow>
      depends_on (ts ! j) =
        (if task_type (ts ! j) = SEQUENTIAL \<and> j > 0 then [task_name (j - 1)] else [])"
  shows "(\<forall>t \<in> set ts. \<forall>d \<in> set (depends_on t). d \<in> task_id ` set ts) \<and>
    (\<forall>t \<in> set ts. task_id t \<notin> set (depends_on t)) \<and>
    acyclic (dep_rel ts) \<and>
    (\<forall>t \<in> set ts. task_type t = PARALLEL \<longrightarrow> depends_on t = []) \<and>
    (\<forall>i. 0 < i \<and> i < length ts \<and> task_type (ts ! i) = SEQUENTIAL \<longrightarrow>
       depends_on (ts ! i) = [task_id (ts ! (i - 1))])"
proof -
  have edge: "\<exists>j. 0 < j \<and> j < length ts \<and> t = ts ! j \<and> d = task_name (j - 1)"
    if "t \<in> set ts" "d \<in> set (depends_on t)" for t d
  proof -
    from that(1) obtain j where j: "j < length ts" "t = ts ! j"
      by (auto simp: in_set_conv_nth)
    from that(2) j deps [OF j(1)] have "0 < j \<and> d = task_name (j - 1)"
      by (auto split: if_splits)
    with j show ?thesis by blast
  qed
  have p1: "\<forall>t \<in> set ts. \<forall>d \<in> set (depends_on t). d \<in> task_id ` set ts"
  proof (intro ballI)
    fix t d assume "t \<in> set ts" "d \<in> set (depends_on t)"
    from edge [OF this] obtain j where j: "0 < j" "j < length ts" "d = task_name (j - 1)"
      by blast
    then have k: "j - 1 < length ts" by simp
    from ids [OF k] j(3) have "d = task_id (ts ! (j - 1))" by simp
    with k show "d \<in> task_id ` set ts" by (metis imageI nth_mem)
  qed
  have p2: "\<forall>t \<in> set ts. task_id t \<notin> set (depends_on t)"
  proof (intro ballI notI)
    fix t assume t: "t \<in> set ts" "task_id t \<in> set (depends_on t)"
    from edge [OF this] obtain j where j: "0 < j" "j < length ts" "t = ts ! j"
      "task_id t = task_name (j - 1)" by blast
    from ids [OF j(2)] j(3,4) have "task_name j = task_name (j - 1)" by simp
    then have "j = j - 1" by (rule task_name_inj)
    with j(1) show False by simp
  qed
  have p3: "acyclic (dep_rel ts)"
  proof (rule acyclicI_order [where f = "inv task_name"])
    fix a b assume "(a, b) \<in> dep_rel ts"
    then obtain t where t: "t \<in> set ts" "a = task_id t" "b \<in> set (depends_on t)"
      by (auto simp: dep_rel_def)
    from edge [OF t(1,3)] obtain j where j: "0 < j" "j < length ts" "t = ts ! j"
      "b = task_name (j - 1)" by blast
    from ids [OF j(2)] j(3) t(2) have "a = task_name j" by simp
    with j(1,4) show "inv task_name b < inv task_name a"
      by (simp add: inv_task_name)
  qed
  have p4: "\<forall>t \<in> set ts. task_type t = PARALLEL \<longrightarrow> depends_on t = []"
  proof (intro ballI impI)
    fix t assume t: "t \<in> set ts" "task_type t = PARALLEL"
    from t(1) obtain j where j: "j < length ts" "t = ts ! j"
      by (auto simp: in_set_conv_nth)
    from deps [OF j(1)] j(2) t(2) show "depends_on t = []" by simp
  qed
  have p5: "\<forall>i. 0 < i \<and> i < length ts \<and> task_type (ts ! i) = SEQUENTIAL \<longrightarrow>
       depends_on (ts ! i) = [task_id (ts ! (i - 1))]"
  proof (intro allI impI)
    fix i assume i: "0 < i \<and> i < length ts \<and> task_type (ts ! i) = SEQUENTIAL"
    then have k: "i - 1 < length ts" by arith
    from deps [of i] i ids [OF k] show "depends_on (ts ! i) = [task_id (ts ! (i - 1))]"
      by simp
  qed
  from p1 p2 p3 p4 p5 show ?thesis by blast
qed

lemma build_tasks_chain:
  "(\<forall>t \<in> set (build_tasks 0 segs). \<forall>d \<in> set (depends_on t). d \<in> task_id ` set (build_tasks 0 segs)) \<and>
    (\<forall>t \<in> set (build_tasks 0 segs). task_id t \<notin> set (depends_on t)) \<and>
    acyclic (dep_rel (build_tasks 0 segs)) \<and>
    (\<forall>t \<in> set (build_tasks 0 segs). task_type t = PARALLEL \<longrightarrow> depends_on t = []) \<and>
    (\<forall>i. 0 < i \<and> i < length (build_tasks 0 segs) \<and> task_type (build_tasks 0 segs ! i) = SEQUENTIAL \<longrightarrow>
       depends_on (build_tasks 0 segs ! i) = [task_id (build_tasks 0 segs ! (i - 1))])"
  by (rule chain_well_formed) (simp_all add: length_build_tasks nth_build_tasks)

lemma single_task_chain:
  "(\<forall>t \<in> set [tk\<lparr>task_id := ''task_0'', task_type := PARALLEL, depends_on := []\<rparr>].
       \<forall>d \<in> set (depends_on t). d \<in> task_id ` set [tk\<lparr>task_id := ''task_0'', task_type := PARALLEL, depends_on := []\<rparr>]) \<and>
    (\<forall>t \<in> set [tk\<lparr>task_id := ''task_0'', task_type := PARALLEL, depends_on := []\<rparr>]. task_id t \<notin> set (depends_on t)) \<and>
    acyclic (dep_rel [tk\<lparr>task_id := ''task_0'', task_type := PARALLEL, depends_on := []\<rparr>]) \<and>
    (\<forall>t \<in> set [tk\<lparr>task_id := ''task_0'', task_type := PARALLEL, depends_on := []\<rparr>]. task_type t = PARALLEL \<longrightarrow> depends_on t = []) \<and>
    (\<forall>i. 0 < i \<and> i < length [tk\<lparr>task_id := ''task_0'', task_type := PARALLEL, depends_on := []\<rparr>] \<and>
       task_type ([tk\<lparr>task_id := ''task_0'', task_type := PARALLEL, depends_on := []\<rparr>] ! i) = SEQUENTIAL \<longrightarrow>
       depends_on ([tk\<lparr>task_id := ''task_0'', task_type := PARALLEL, depends_on := []\<rparr>] ! i) =
         [task_id ([tk\<lparr>task_id := ''task_0'', task_type := PARALLEL, depends_on := []\<rparr>] ! (i - 1))])"
  by (rule chain_well_formed) (simp_all add: task_name_0)

text \<open>
  C8. For every input string, the task list returned by \<open>parse\<close> satisfies: each
  dependency id is the id of a task of the same list, no task depends on itself, the
  dependency relation is acyclic, every task of kind parallel has an empty dependency
  set, and a task of kind sequential at a position \<open>i > 0\<close> depends exactly on the task at
  position \<open>i - 1\<close>.
\<close>

theorem parse_dependencies_well_formed:
  "(\<forall>t \<in> set (parse instr). \<forall>d \<in> set (depends_on t). d \<in> task_id ` set (parse instr)) \<and>
   (\<forall>t \<in> set (parse instr). task_id t \<notin> set (depends_on t)) \<and>
   acyclic (dep_rel (parse instr)) \<and>
   (\<forall>t \<in> set (parse instr). task_type t = PARALLEL \<longrightarrow> depends_on t = []) \<and>
   (\<forall>i. 0 < i \<and> i < length (parse instr) \<and> task_type (parse instr ! i) = SEQUENTIAL \<longrightarrow>
      depends_on (parse instr ! i) = [task_id (parse instr ! (i - 1))])"
proof (cases "is_multi_task (strip instr)")
  case True
  then have e: "parse instr = build_tasks 0 (split_instruction (strip instr))"
    by (simp add: parse_def)
  show ?thesis unfolding e by (rule build_tasks_chain)
next
  case False
  then have e: "parse instr =
    [\<lparr>task_id = ''x'', instruction = strip instr, task_type = PARALLEL, depends_on = []\<rparr>
      \<lparr>task_id := ''task_0'', task_type := PARALLEL, depends_on := []\<rparr>]"
    by (simp add: parse_def)
  show ?thesis unfolding e by (rule single_task_chain)
qed

text \<open>Three instructions evaluated once, for the examples below.\<close>

lemma parse_a_then_b:
  "parse ''a then b'' =
     [\<lparr>task_id = ''task_0'', instruction = ''a'', task_type = PARALLEL, depends_on = []\<rparr>,
      \<lparr>task_id = ''task_1'', instruction = ''b'', task_type = SEQUENTIAL,
         depends_on = [''task_0'']\<rparr>]"
  by code_simp

lemma parse_a_and_b:
  "parse ''a and b'' =
     [\<lparr>task_id = ''task_0'', instruction = ''a'', task_type = PARALLEL, depends_on = []\<rparr>,
      \<lparr>task_id = ''task_1'', instruction = ''b'', task_type = PARALLEL, depends_on = []\<rparr>]"
  by code_simp


text \<open>
  An instruction with one sequential connector: the second task is sequential and
  depends on the first.
\<close>

theorem parse_dependencies_well_formed_witness:
  "parse ''a then b'' =
     [\<lparr>task_id = ''task_0'', instruction = ''a'', task_type = PARALLEL, depends_on = []\<rparr>,
      \<lparr>task_id = ''task_1'', instruction = ''b'', task_type = SEQUENTIAL,
         depends_on = [''task_0'']\<rparr>] \<and>
   depends_on (parse ''a then b'' ! 1) = [task_id (parse ''a then b'' ! (1 - 1))] \<and>
   acyclic (dep_rel (parse ''a then b''))"
proof -
  note t = parse_dependencies_well_formed [of "''a then b''"]
  from t have a: "acyclic (dep_rel (parse ''a then b''))" by blast
  from t have "0 < (1::nat) \<and> 1 < length (parse ''a then b'') \<and>
      task_type (parse ''a then b'' ! 1) = SEQUENTIAL \<longrightarrow>
      depends_on (parse ''a then b'' ! 1) = [task_id (parse ''a then b'' ! (1 - 1))]"
    by blast
  moreover have "0 < (1::nat) \<and> 1 < length (parse ''a then b'') \<and>
      task_type (parse ''a then b'' ! 1) = SEQUENTIAL"
    by (simp add: parse_a_then_b)
  ultimately have d: "depends_on (parse ''a then b'' ! 1) = [task_id (parse ''a then b'' ! (1 - 1))]"
    by blast
  from parse_a_then_b d a show ?thesis by blast
qed

subsection \<open>Blank margins hide no connector\<close>

lemma space_not_word: "is_space c \<Longrightarrow> \<not> is_word c"
  unfolding is_space_def is_word_def Let_def by arith

lemma is_word_hd_append:
  "\<forall>c \<in> set w. \<not> is_word c \<Longrightarrow> is_word_hd (s @ w) = is_word_hd s"
  by (cases s; cases w) (simp_all add: is_word_hd_def)

lemma match_here_prev_cong:
  "is_word_opt p = is_word_opt q \<Longrightarrow> match_here r p s = match_here r q s"
proof (induction r p s arbitrary: q rule: match_here.induct)
  case (1 prev s)
  show ?case by simp
next
  case (2 c r prev)
  show ?case by simp
next
  case (3 c r prev d s)
  show ?case by simp
next
  case (4 r prev s)
  from "4.IH" [of q] "4.prems" show ?case by simp
next
  case (5 c r prev)
  from "5.IH" [OF "5.prems"] show ?case by simp
next
  case (6 c r prev d s)
  show ?case
  proof (cases "lower_char d = lower_char c")
    case True
    show ?thesis
    proof (cases "match_here r (Some d) s")
      case None
      from "6.IH"(2) [OF True None "6.prems"] True None show ?thesis by simp
    next
      case (Some n)
      with True show ?thesis by simp
    qed
  next
    case False
    from "6.IH"(3) [OF False "6.prems"] False show ?thesis by simp
  qed
next
  case (7 r prev)
  from "7.IH" [OF "7.prems"] show ?case by simp
next
  case (8 r prev d s)
  show ?case
  proof (cases "d \<noteq> CHR 0x0A")
    case True
    show ?thesis
    proof (cases "match_here (DotStar # r) (Some d) s")
      case None
      from "8.IH"(2) [OF True None "8.prems"] True None show ?thesis by simp
    next
      case (Some n)
      with True show ?thesis by simp
    qed
  next
    case False
    from "8.IH"(3) [OF False "8.prems"] False show ?thesis by simp
  qed
qed


lemma match_here_blank:
  assumes w: "\<forall>c \<in> set w. \<not> is_word c"
  shows "match_here r p [] = Some n \<Longrightarrow> \<exists>m. match_here r p w = Some m"
proof (induction r arbitrary: n)
  case Nil
  show ?case by simp
next
  case (Cons a r)
  show ?case
  proof (cases a)
    case (Lit c)
    with Cons.prems show ?thesis by simp
  next
    case Bnd
    from Cons.prems Bnd have b: "is_word_opt p \<noteq> is_word_hd []" and m: "match_here r p [] = Some n"
      by (simp_all split: if_splits)
    from w have "is_word_hd w = is_word_hd []" by (cases w) (simp_all add: is_word_hd_def)
    with b Cons.IH [OF m] Bnd show ?thesis by simp
  next
    case (OptLit c)
    with Cons.prems have "match_here r p [] = Some n" by simp
    from Cons.IH [OF this] obtain m where "match_here r p w = Some m" ..
    with OptLit show ?thesis by (cases w) (auto split: option.splits)
  next
    case DotStar
    with Cons.prems have "match_here r p [] = Some n" by simp
    from Cons.IH [OF this] obtain m where "match_here r p w = Some m" ..
    with DotStar show ?thesis by (cases w) (auto split: option.splits)
  qed
qed

lemma match_here_append:
  assumes w: "\<forall>c \<in> set w. \<not> is_word c"
  shows "match_here r p s = Some n \<Longrightarrow> \<exists>m. match_here r p (s @ w) = Some m"
proof (induction r p s arbitrary: n rule: match_here.induct)
  case (1 prev s)
  show ?case by simp
next
  case (2 c r prev)
  then show ?case by simp
next
  case (3 c r prev d s)
  then show ?case by (auto split: if_splits)
next
  case (4 r prev s)
  then show ?case by (auto simp: is_word_hd_append [OF w] split: if_splits)
next
  case (5 c r prev)
  from match_here_blank [OF w "5.prems"] show ?case by simp
next
  case (6 c r prev d s)
  then show ?case by (auto split: if_splits option.splits)
next
  case (7 r prev)
  from match_here_blank [OF w "7.prems"] show ?case by simp
next
  case (8 r prev d s)
  then show ?case by (auto split: if_splits option.splits)
qed

lemma search_from_append:
  assumes w: "\<forall>c \<in> set w. \<not> is_word c"
  shows "search_from r p s \<Longrightarrow> search_from r p (s @ w)"
proof (induction s arbitrary: p)
  case Nil
  then obtain n where "match_here r p [] = Some n" by auto
  from match_here_blank [OF w this] show ?case by (cases w) auto
next
  case (Cons d s)
  from Cons.prems have "match_here r p (d # s) \<noteq> None \<or> search_from r (Some d) s" by simp
  then show ?case
  proof
    assume "match_here r p (d # s) \<noteq> None"
    then obtain n where "match_here r p (d # s) = Some n" by auto
    from match_here_append [OF w this] show ?thesis by auto
  next
    assume "search_from r (Some d) s"
    from Cons.IH [OF this] show ?thesis by simp
  qed
qed

lemma search_from_prev_cong:
  "is_word_opt p = is_word_opt q \<Longrightarrow> search_from r p s = search_from r q s"
  by (cases s) (simp_all add: match_here_prev_cong [of p q])

lemma search_from_prepend:
  "\<forall>c \<in> set w. \<not> is_word c \<Longrightarrow> \<not> is_word_opt p \<Longrightarrow> search_from r None s
    \<Longrightarrow> search_from r p (w @ s)"
proof (induction w arbitrary: p)
  case Nil
  then show ?case using search_from_prev_cong [of p None r s] by (simp add: is_word_opt_def)
next
  case (Cons c w)
  then have "search_from r (Some c) (w @ s)" by (simp add: is_word_opt_def)
  then show ?case by simp
qed

lemma strip_decomp:
  "\<exists>w1 w2. s = w1 @ strip s @ w2 \<and> (\<forall>c \<in> set w1. is_space c) \<and> (\<forall>c \<in> set w2. is_space c)"
proof -
  let ?u = "dropWhile is_space s"
  have a: "s = takeWhile is_space s @ ?u" by simp
  have "rev (takeWhile is_space (rev ?u) @ dropWhile is_space (rev ?u)) = ?u"
    by (simp only: takeWhile_dropWhile_id rev_rev_ident)
  then have b: "?u = strip s @ rev (takeWhile is_space (rev ?u))"
    by (simp only: rev_append strip_def)
  have c: "\<forall>c \<in> set (takeWhile is_space s). is_space c" by (auto dest: set_takeWhileD)
  have d: "\<forall>c \<in> set (rev (takeWhile is_space (rev ?u))). is_space c"
    by (auto dest: set_takeWhileD)
  from a b have "s = takeWhile is_space s @ strip s @ rev (takeWhile is_space (rev ?u))"
    by simp
  with c d show ?thesis by blast
qed

lemma re_search_strip: "re_search r (strip s) \<Longrightarrow> re_search r s"
proof -
  assume h: "re_search r (strip s)"
  from strip_decomp [of s] obtain w1 w2 where
    s: "s = w1 @ strip s @ w2" and w1: "\<forall>c \<in> set w1. is_space c" and w2: "\<forall>c \<in> set w2. is_space c"
    by blast
  from w1 w2 have n1: "\<forall>c \<in> set w1. \<not> is_word c" and n2: "\<forall>c \<in> set w2. \<not> is_word c"
    by (auto dest: space_not_word)
  from h have "search_from r None (strip s @ w2)"
    unfolding re_search_def by (rule search_from_append [OF n2])
  from search_from_prepend [OF n1 _ this, of None]
  have "search_from r None (w1 @ strip s @ w2)"
    by (simp add: is_word_opt_def)
  with s show ?thesis unfolding re_search_def by simp
qed

lemma is_multi_task_strip: "is_multi_task (strip s) \<Longrightarrow> is_multi_task s"
  by (auto simp: is_multi_task_def list_ex_iff dest: re_search_strip)

text \<open>
  C9. For every instruction string containing no parallel or sequential connector
  phrase (the test of \<open>_is_multi_task\<close>, on the instruction as given), \<open>parse\<close> returns
  exactly one task, of kind parallel, with an empty dependency set, whose instruction is
  the trimmed input.
\<close>

theorem parse_no_connector:
  "\<not> is_multi_task instr \<Longrightarrow>
   parse instr =
     [\<lparr>task_id = ''task_0'', instruction = strip instr, task_type = PARALLEL, depends_on = []\<rparr>]"
  using is_multi_task_strip [of instr] by (auto simp: parse_def Let_def)

theorem parse_no_connector_witness:
  "\<not> is_multi_task ''  ab '' \<and>
   parse ''  ab '' =
     [\<lparr>task_id = ''task_0'', instruction = ''ab'', task_type = PARALLEL, depends_on = []\<rparr>]"
proof -
  have h: "\<not> is_multi_task ''  ab ''" by code_simp
  have s: "strip ''  ab '' = ''ab''" by code_simp
  from parse_no_connector [OF h] s h show ?thesis by simp
qed

section \<open>Properties of the command router\<close>

lemma list_ex_filter_length: "list_ex P xs \<longleftrightarrow> 1 \<le> length (filter P xs)"
  by (induction xs) auto

lemma match_workflows_first:
  "\<forall>(k, c) \<in> set pre. \<not> workflow_matches k low \<Longrightarrow> workflow_matches workflow_key low \<Longrightarrow>
   match_workflows (pre @ (workflow_key, cmds) # post) low = Some \<lparr>path = SHELL, commands = Some cmds\<rparr>"
  by (induction pre) auto

text \<open>
  C6, as the source has it. The condition of a workflow entry holds if and only if at
  least one word of its key phrase occurs in the lower-cased instruction and the
  number of its words that occur is at least half their number rounded down; at least
  half of the words of a key phrase that has a word is therefore enough. When no alias
  and no app matches, \<open>route\<close> returns the path \<open>shell\<close> with the command list of the first
  workflow entry whose condition holds.
\<close>

theorem workflow_match_rule:
  "(workflow_matches workflow_key low \<longleftrightarrow>
      1 \<le> length (filter (\<lambda>w. contains low w) (key_words workflow_key)) \<and>
      length (key_words workflow_key) div 2
        \<le> length (filter (\<lambda>w. contains low w) (key_words workflow_key))) \<and>
   (key_words workflow_key \<noteq> [] \<and>
    length (key_words workflow_key)
      \<le> 2 * length (filter (\<lambda>w. contains low w) (key_words workflow_key))
      \<longrightarrow> workflow_matches workflow_key low) \<and>
   (low = strip (lower (strip instr)) \<and>
    match_aliases (aliases lib) low = None \<and>
    match_apps sh (apps lib) low = Inr None \<and>
    workflows lib = pre @ (workflow_key, cmds) # post \<and>
    (\<forall>(k, c) \<in> set pre. \<not> workflow_matches k low) \<and>
    workflow_matches workflow_key low
      \<longrightarrow> route sh gen lib instr = Inr \<lparr>path = SHELL, commands = Some cmds\<rparr>)"
proof (intro conjI impI)
  show "workflow_matches workflow_key low \<longleftrightarrow>
      1 \<le> length (filter (\<lambda>w. contains low w) (key_words workflow_key)) \<and>
      length (key_words workflow_key) div 2
        \<le> length (filter (\<lambda>w. contains low w) (key_words workflow_key))"
    by (simp add: workflow_matches_def list_ex_filter_length)
next
  assume h: "key_words workflow_key \<noteq> [] \<and>
    length (key_words workflow_key)
      \<le> 2 * length (filter (\<lambda>w. contains low w) (key_words workflow_key))"
  then have "0 < length (key_words workflow_key)" by simp
  with h have "1 \<le> length (filter (\<lambda>w. contains low w) (key_words workflow_key)) \<and>
      length (key_words workflow_key) div 2
        \<le> length (filter (\<lambda>w. contains low w) (key_words workflow_key))"
    by arith
  then show "workflow_matches workflow_key low"
    by (simp add: workflow_matches_def list_ex_filter_length)
next
  assume h: "low = strip (lower (strip instr)) \<and>
    match_aliases (aliases lib) low = None \<and>
    match_apps sh (apps lib) low = Inr None \<and>
    workflows lib = pre @ (workflow_key, cmds) # post \<and>
    (\<forall>(k, c) \<in> set pre. \<not> workflow_matches k low) \<and>
    workflow_matches workflow_key low"
  then have l: "low = strip (lower (strip instr))"
    and al: "match_aliases (aliases lib) low = None"
    and ap: "match_apps sh (apps lib) low = Inr None"
    and w: "workflows lib = pre @ (workflow_key, cmds) # post"
    and p: "\<forall>(k, c) \<in> set pre. \<not> workflow_matches k low"
    and m: "workflow_matches workflow_key low"
    by blast+
  have mw: "match_workflows (workflows lib) low = Some \<lparr>path = SHELL, commands = Some cmds\<rparr>"
    unfolding w using p m by (rule match_workflows_first)
  have "try_deterministic_match sh lib (strip instr)
      = Inr (Some \<lparr>path = SHELL, commands = Some cmds\<rparr>)"
    unfolding try_deterministic_match_def Let_def l [symmetric] by (simp add: al ap mw)
  then show "route sh gen lib instr = Inr \<lparr>path = SHELL, commands = Some cmds\<rparr>"
    by (simp add: route_def Let_def)
qed

text \<open>
  A key phrase of three words of which the instruction holds one: fewer than half, and
  the workflow is taken.
\<close>

theorem workflow_match_rule_witness:
  "workflow_matches ''start_dev_environment'' (strip (lower (strip ''Start the music''))) \<and>
   route (\<lambda>l. None) (\<lambda>t. None)
     \<lparr>aliases = [], apps = [],
      workflows = [(''start_dev_environment'', [Tokens [''code'', ''.'']])]\<rparr>
     ''Start the music''
   = Inr \<lparr>path = SHELL, commands = Some [Tokens [''code'', ''.'']]\<rparr>"
proof -
  have m: "workflow_matches ''start_dev_environment'' (strip (lower (strip ''Start the music'')))"
    by code_simp
  have "strip (lower (strip ''Start the music'')) = strip (lower (strip ''Start the music'')) \<and>
    match_aliases (aliases \<lparr>aliases = [], apps = [],
      workflows = [(''start_dev_environment'', [Tokens [''code'', ''.'']])]\<rparr>)
      (strip (lower (strip ''Start the music''))) = None \<and>
    match_apps (\<lambda>l. None) (apps \<lparr>aliases = [], apps = [],
      workflows = [(''start_dev_environment'', [Tokens [''code'', ''.'']])]\<rparr>)
      (strip (lower (strip ''Start the music''))) = Inr None \<and>
    workflows \<lparr>aliases = [], apps = [],
      workflows = [(''start_dev_environment'', [Tokens [''code'', ''.'']])]\<rparr>
      = [] @ (''start_dev_environment'', [Tokens [''code'', ''.'']]) # [] \<and>
    (\<forall>(k, c) \<in> set []. \<not> workflow_matches k (strip (lower (strip ''Start the music'')))) \<and>
    workflow_matches ''start_dev_environment'' (strip (lower (strip ''Start the music'')))"
    using m by simp
  with workflow_match_rule
    [of "''start_dev_environment''" "strip (lower (strip ''Start the music''))"
        "''Start the music''"
        "\<lparr>aliases = [], apps = [],
          workflows = [(''start_dev_environment'', [Tokens [''code'', ''.'']])]\<rparr>"
        "\<lambda>l. None" "[]" "[Tokens [''code'', ''.'']]" "[]" "\<lambda>t. None"]
  have "route (\<lambda>l. None) (\<lambda>t. None)
     \<lparr>aliases = [], apps = [],
      workflows = [(''start_dev_environment'', [Tokens [''code'', ''.'']])]\<rparr>
     ''Start the music''
   = Inr \<lparr>path = SHELL, commands = Some [Tokens [''code'', ''.'']]\<rparr>"
    by blast
  with m show ?thesis by blast
qed

text \<open>
  The claim as the specification words it, a match if and only if at least half of the
  words occur, fails on that input: one word of three occurs, and \<open>route\<close> returns the
  workflow's commands.
\<close>

theorem workflow_half_counterexample:
  "route (\<lambda>l. None) (\<lambda>t. None)
     \<lparr>aliases = [], apps = [],
      workflows = [(''start_dev_environment'', [Tokens [''code'', ''.'']])]\<rparr>
     ''Start the music''
   = Inr \<lparr>path = SHELL, commands = Some [Tokens [''code'', ''.'']]\<rparr> \<and>
   length (filter (\<lambda>w. contains (strip (lower (strip ''Start the music''))) w)
     (key_words ''start_dev_environment'')) = 1 \<and>
   length (key_words ''start_dev_environment'') = 3 \<and>
   \<not> (workflow_matches ''start_dev_environment'' (strip (lower (strip ''Start the music''))) \<longleftrightarrow>
      length (key_words ''start_dev_environment'')
        \<le> 2 * length (filter (\<lambda>w. contains (strip (lower (strip ''Start the music''))) w)
              (key_words ''start_dev_environment'')))"
  by code_simp

section \<open>Properties of the shell executor\<close>

text \<open>
  C5, as the source has it. When the safety gate fires (the call is interactive and the
  batch requires confirmation), the answer confirms exactly when it is \<open>yes\<close> after its
  blank margins are removed and its letters are lower-cased. For every other answer, and
  for an end of input or an interrupt, \<open>run\<close> starts no process and returns failure with
  no results and the error \<open>User cancelled dangerous operation\<close>; for a confirming answer
  it runs the loop over the commands.
\<close>

theorem run_gate_cancels:
  assumes "token_commands env cmds = Inr tcs"
    and "interactive"
    and "requires_confirmation tcs"
  shows "((case answer of Response r \<Rightarrow> lower (strip r) \<noteq> ''yes'' | EOFError \<Rightarrow> True
            | KeyboardInterrupt \<Rightarrow> True) \<longrightarrow>
          run env base_cwd cmds cwd0 interactive answer =
            Inr \<lparr>ok = False, results = [],
                 run_error = Some ''User cancelled dangerous operation'', executed = []\<rparr>) \<and>
         ((case answer of Response r \<Rightarrow> lower (strip r) = ''yes'' | EOFError \<Rightarrow> False
            | KeyboardInterrupt \<Rightarrow> False) \<longrightarrow>
          run env base_cwd cmds cwd0 interactive answer =
            run_loop env cmds (first_cwd cwd0 base_cwd) True [] [])"
  using assms by (cases answer) (simp_all add: run_def cancelled_def Let_def)

theorem run_gate_cancels_witness:
  "run example_shell_env None [Tokens [''rm'', ''-rf'', ''/'']] None True (Response ''no'') =
     Inr \<lparr>ok = False, results = [],
          run_error = Some ''User cancelled dangerous operation'', executed = []\<rparr>"
proof -
  have t: "token_commands example_shell_env [Tokens [''rm'', ''-rf'', ''/'']]
      = Inr [[''rm'', ''-rf'', ''/'']]"
    by (simp add: to_tokens_def)
  have r: "requires_confirmation [[''rm'', ''-rf'', ''/'']]" by code_simp
  have n: "lower (strip ''no'') \<noteq> ''yes''" by code_simp
  from run_gate_cancels [OF t _ r, of True "Response ''no''" None None] n
  show ?thesis by simp
qed

text \<open>
  The claim as the specification words it, only the exact string \<open>yes\<close> confirms, fails on
  the answer \<open>YES\<close>: it is not the string \<open>yes\<close>, and the batch runs.
\<close>

theorem run_exact_yes_counterexample:
  "''YES'' \<noteq> ''yes'' \<and>
   requires_confirmation [[''rm'', ''-rf'', ''/'']] \<and>
   run example_shell_env None [Tokens [''rm'', ''-rf'', ''/'']] None True (Response ''YES'') =
     Inr \<lparr>ok = True,
          results = [\<lparr>cmd = [''rm'', ''-rf'', ''/''], cwd = ''.'', returncode = 0,
                      stdout = [], stderr = []\<rparr>],
          run_error = None,
          executed = [([''rm'', ''-rf'', ''/''], ''.'')]\<rparr>"
  by code_simp

section \<open>Properties of the GUI executor\<close>

subsection \<open>Which steps enter the fallback\<close>

lemma calls_log_call: "calls (log_call c s) = calls s @ [c]"
  by (simp add: log_call_def)

lemma calls_shot: "calls (shot k s) = calls s"
  by (simp add: shot_def)

lemma calls_on_exception: "calls (snd (on_exception attempt max_retries s e)) = calls s"
  by (simp add: on_exception_def)

lemma fallback_act:
  "FallbackKeyboardAction \<in> set (calls (snd (act io attempt max_retries p s)))
     \<longleftrightarrow> FallbackKeyboardAction \<in> set (calls s)"
  by (simp add: act_def Let_def calls_log_call calls_shot calls_on_exception
      split: sum.splits)

lemma fallback_verify:
  "FallbackKeyboardAction \<in> set (calls (snd (verify env io verify_radius attempt max_retries p s)))
     \<longleftrightarrow> FallbackKeyboardAction \<in> set (calls s)"
  by (simp add: verify_def Let_def calls_log_call calls_shot calls_on_exception fallback_act
      split: sum.splits)

lemma calls_press_shortcut:
  "FallbackKeyboardAction \<in> set (calls s)
     \<Longrightarrow> FallbackKeyboardAction \<in> set (calls (press_shortcut env k name s))"
  by (simp add: press_shortcut_def calls_log_call split: sum.splits)

lemma fallback_logged:
  "fallback_keyboard_action env instr s = Inr s'
     \<Longrightarrow> FallbackKeyboardAction \<in> set (calls s')"
  by (auto simp: fallback_keyboard_action_def Let_def calls_log_call
      intro!: calls_press_shortcut split: sum.splits if_splits)

lemma fallback_body_final:
  assumes "FallbackKeyboardAction \<in> set (calls (snd (attempt_body env instr verify_radius max_retries attempt s)))"
    and "FallbackKeyboardAction \<notin> set (calls s)"
  shows "attempt = max_retries - 1 \<and> before_cap (attempt_env env attempt) = Inr () \<and>
    pred (attempt_env env attempt) = Inr []"
  using assms
  by (simp add: attempt_body_def Let_def calls_log_call calls_shot calls_on_exception
      fallback_verify split: sum.splits if_splits)

lemma fallback_body_continue:
  assumes "fst (attempt_body env instr verify_radius max_retries attempt s) = Continue"
    and "FallbackKeyboardAction \<notin> set (calls s)"
  shows "FallbackKeyboardAction \<notin> set (calls (snd (attempt_body env instr verify_radius max_retries attempt s)))"
proof
  assume f: "FallbackKeyboardAction \<in> set (calls (snd (attempt_body env instr verify_radius max_retries attempt s)))"
  from fallback_body_final [OF f assms(2)]
  have "attempt = max_retries - 1" and "before_cap (attempt_env env attempt) = Inr ()"
    and "pred (attempt_env env attempt) = Inr []" by blast+
  then have "fst (attempt_body env instr verify_radius max_retries attempt s) = Return"
    by (simp add: attempt_body_def Let_def on_exception_def split: sum.splits)
  with assms(1) show False by simp
qed

lemma fallback_body_empty:
  assumes "before_cap (attempt_env env attempt) = Inr ()"
    and "pred (attempt_env env attempt) = Inr []"
  shows "(attempt = max_retries - 1 \<longrightarrow>
      fst (attempt_body env instr verify_radius max_retries attempt s) = Return \<and>
      FallbackKeyboardAction \<in> set (calls (snd (attempt_body env instr verify_radius max_retries attempt s)))) \<and>
    (attempt \<noteq> max_retries - 1 \<longrightarrow>
      fst (attempt_body env instr verify_radius max_retries attempt s) = Continue)"
proof -
  define s1 where "s1 = log_call SuggestTargets (shot (''attempt_'' @ str_of_nat attempt)
    (log_call (CaptureFullscreen (if attempt = 0 then ''before''
       else if attempt = 1 then ''retry1'' else ''retry2'')) s))"
  have body: "attempt_body env instr verify_radius max_retries attempt s =
    (if attempt = max_retries - 1 then
       (case fallback_keyboard_action env instr s1 of
          Inl e \<Rightarrow> on_exception attempt max_retries (log_call FallbackKeyboardAction s1) e
        | Inr s2 \<Rightarrow> (Return, s2))
     else (Continue, s1))"
    unfolding attempt_body_def Let_def s1_def by (simp add: assms)
  show ?thesis
  proof (cases "attempt = max_retries - 1")
    case False
    with body show ?thesis by simp
  next
    case True
    show ?thesis
    proof (cases "fallback_keyboard_action env instr s1")
      case (Inl e)
      with body True show ?thesis
        by (simp add: on_exception_def calls_log_call)
    next
      case (Inr s2)
      from fallback_logged [OF Inr] body True Inr show ?thesis by simp
    qed
  qed
qed

lemma fallback_loop_only:
  "FallbackKeyboardAction \<notin> set (calls s) \<Longrightarrow>
   FallbackKeyboardAction \<in> set (calls (attempt_loop env instr verify_radius max_retries n attempt s)) \<Longrightarrow>
   attempt \<le> max_retries - 1 \<and> max_retries - 1 < attempt + n \<and>
   before_cap (attempt_env env (max_retries - 1)) = Inr () \<and>
   pred (attempt_env env (max_retries - 1)) = Inr []"
proof (induction n arbitrary: attempt s)
  case 0
  then show ?case by simp
next
  case (Suc n)
  obtain r s' where b: "attempt_body env instr verify_radius max_retries attempt s = (r, s')"
    by (cases "attempt_body env instr verify_radius max_retries attempt s")
  show ?case
  proof (cases r)
    case Return
    with b Suc.prems(2) have "FallbackKeyboardAction \<in> set (calls s')" by simp
    with b have "FallbackKeyboardAction \<in> set (calls (snd (attempt_body env instr verify_radius max_retries attempt s)))"
      by simp
    from fallback_body_final [OF this Suc.prems(1)] show ?thesis by auto
  next
    case Continue
    with b have "fst (attempt_body env instr verify_radius max_retries attempt s) = Continue"
      by simp
    from fallback_body_continue [OF this Suc.prems(1)] b
    have n: "FallbackKeyboardAction \<notin> set (calls s')" by simp
    from b Continue Suc.prems(2)
    have "FallbackKeyboardAction \<in> set (calls (attempt_loop env instr verify_radius max_retries n (Suc attempt) s'))"
      by simp
    from Suc.IH [OF n this] show ?thesis by auto
  qed
qed

lemma fallback_loop_all_empty:
  "0 < n \<Longrightarrow> attempt + n = max_retries \<Longrightarrow>
   \<forall>a < max_retries. before_cap (attempt_env env a) = Inr () \<and> pred (attempt_env env a) = Inr [] \<Longrightarrow>
   FallbackKeyboardAction \<in> set (calls (attempt_loop env instr verify_radius max_retries n attempt s))"
proof (induction n arbitrary: attempt s)
  case 0
  then show ?case by simp
next
  case (Suc n)
  from Suc.prems(2,3) have e: "before_cap (attempt_env env attempt) = Inr ()"
    "pred (attempt_env env attempt) = Inr []" by simp_all
  note body = fallback_body_empty [OF e, of max_retries instr verify_radius s]
  obtain r s' where b: "attempt_body env instr verify_radius max_retries attempt s = (r, s')"
    by (cases "attempt_body env instr verify_radius max_retries attempt s")
  show ?case
  proof (cases "n = 0")
    case True
    with Suc.prems(2) have "attempt = max_retries - 1" by simp
    with body b show ?thesis by simp
  next
    case False
    with Suc.prems(2) have "attempt \<noteq> max_retries - 1" by simp
    with body b have c: "r = Continue" by simp
    from False Suc.prems(2) have "0 < n" "Suc attempt + n = max_retries" by simp_all
    from Suc.IH [OF this Suc.prems(3)] b c show ?thesis by simp
  qed
qed

text \<open>
  C2, as the source has it. The fallback is entered only in the final attempt, when its
  capture succeeds and its PREDICT step returns no target, whatever the attempts before
  returned; when every attempt produces no target, it is entered.
\<close>

theorem fallback_only_on_empty_final:
  "(FallbackKeyboardAction \<in> set (calls (execute env pos instr verify_radius max_retries)) \<longrightarrow>
      0 < max_retries \<and>
      before_cap (attempt_env env (max_retries - 1)) = Inr () \<and>
      pred (attempt_env env (max_retries - 1)) = Inr []) \<and>
   (0 < max_retries \<and>
    (\<forall>a < max_retries. before_cap (attempt_env env a) = Inr () \<and> pred (attempt_env env a) = Inr [])
      \<longrightarrow> FallbackKeyboardAction \<in> set (calls (execute env pos instr verify_radius max_retries)))"
proof (intro conjI impI)
  assume f: "FallbackKeyboardAction \<in> set (calls (execute env pos instr verify_radius max_retries))"
  have "FallbackKeyboardAction \<notin> set (calls (initial_gui_state pos))"
    by (simp add: initial_gui_state_def)
  from fallback_loop_only [OF this f [unfolded execute_def]]
  show "0 < max_retries" and "before_cap (attempt_env env (max_retries - 1)) = Inr ()"
    and "pred (attempt_env env (max_retries - 1)) = Inr []"
    by simp_all
next
  assume "0 < max_retries \<and>
    (\<forall>a < max_retries. before_cap (attempt_env env a) = Inr () \<and> pred (attempt_env env a) = Inr [])"
  then show "FallbackKeyboardAction \<in> set (calls (execute env pos instr verify_radius max_retries))"
    unfolding execute_def by (intro fallback_loop_all_empty) simp_all
qed


text \<open>No attempt finds a target: the fallback is entered.\<close>

theorem fallback_only_on_empty_final_witness:
  "FallbackKeyboardAction \<in> set (calls (execute (scripted_env []) (0, 0) ''click send'' 32 3)) \<and>
   pred (attempt_env (scripted_env []) (3 - 1)) = Inr []"
proof -
  have h: "0 < (3::nat) \<and>
    (\<forall>a < 3. before_cap (attempt_env (scripted_env []) a) = Inr () \<and>
       pred (attempt_env (scripted_env []) a) = Inr [])"
    by (simp add: scripted_env_def attempt_ok_def)
  note t = fallback_only_on_empty_final [of "scripted_env []" "(0, 0)" "''click send''" 32 3]
  from t h have f: "FallbackKeyboardAction \<in> set (calls (execute (scripted_env []) (0, 0) ''click send'' 32 3))"
    by blast
  with t have "pred (attempt_env (scripted_env []) (3 - 1)) = Inr []" by blast
  with f show ?thesis by blast
qed

text \<open>
  The claim as the specification words it, no fallback once an attempt has produced a
  candidate, fails when the first two attempts each produce a candidate of low
  confidence and the third produces none: the fallback is entered.
\<close>

theorem fallback_after_candidates_counterexample:
  "pred (attempt_env
      (scripted_env [attempt_ok [target_at 100 100 0.3] [], attempt_ok [target_at 100 100 0.3] [],
         attempt_ok [] []]) 0) = Inr [target_at 100 100 0.3] \<and>
   [target_at 100 100 0.3] \<noteq> [] \<and>
   FallbackKeyboardAction \<in> set (calls (execute
      (scripted_env [attempt_ok [target_at 100 100 0.3] [], attempt_ok [target_at 100 100 0.3] [],
         attempt_ok [] []])
      (0, 0) ''click send'' 32 3))"
  by code_simp

subsection \<open>The verification step\<close>

text \<open>The comparison of distances is a strict linear order.\<close>

lemma closer_irrefl: "\<not> closer a a"
  by (cases a) (simp_all add: closer_def)

lemma not_closer_trans: "\<not> closer a b \<Longrightarrow> \<not> closer b c \<Longrightarrow> \<not> closer a c"
  by (cases a; cases b; cases c) (simp_all add: closer_def)

lemma closer_not_closer: "closer a b \<Longrightarrow> \<not> closer b a"
  by (cases a; cases b) (simp_all add: closer_def)

text \<open>\<open>min\<close> returns an element of the smallest key.\<close>

lemma min_key_minimal:
  "min_key k ks \<in> set (k # ks) \<and>
   (\<forall>u \<in> set (k # ks). \<not> closer (snd u) (snd (min_key k ks)))"
proof (induction ks arbitrary: k)
  case Nil
  show ?case by (simp add: min_key_def closer_irrefl)
next
  case (Cons t ks)
  let ?b = "if closer (snd t) (snd k) then t else k"
  have e: "min_key k (t # ks) = min_key ?b ks" by (simp add: min_key_def)
  from Cons.IH [of ?b] have m: "min_key ?b ks \<in> set (?b # ks)"
    and le: "\<forall>u \<in> set (?b # ks). \<not> closer (snd u) (snd (min_key ?b ks))"
    by simp_all
  from le have b: "\<not> closer (snd ?b) (snd (min_key ?b ks))" by simp
  have kb: "\<not> closer (snd k) (snd ?b)" by (simp add: closer_irrefl closer_not_closer)
  have tb: "\<not> closer (snd t) (snd ?b)" by (simp add: closer_irrefl)
  from not_closer_trans [OF kb b] not_closer_trans [OF tb b] le
  have "\<forall>u \<in> set (k # t # ks). \<not> closer (snd u) (snd (min_key ?b ks))"
    by (auto split: if_splits)
  moreover from m have "min_key ?b ks \<in> set (k # t # ks)" by (auto split: if_splits)
  ultimately show ?case unfolding e by blast
qed

text \<open>
  When the loop over the verification targets ends with nothing near, every distance
  was computed, and so are the keys of \<open>min\<close>.
\<close>

lemma keyed_of_near:
  "near_any env vs p r = Inr False \<Longrightarrow>
   \<exists>ks. keyed env p vs = Inr ks \<and> map fst ks = vs \<and>
        (\<forall>k \<in> set ks. point_dist env (point0 (fst k)) p = Inr (snd k))"
proof (induction vs)
  case Nil
  show ?case by simp
next
  case (Cons t vs)
  from Cons.prems obtain d where d: "point_dist env (point0 t) p = Inr d"
    and n: "near_any env vs p r = Inr False"
    by (auto split: sum.splits if_splits)
  from Cons.IH [OF n] obtain ks where "keyed env p vs = Inr ks" "map fst ks = vs"
    "\<forall>k \<in> set ks. point_dist env (point0 (fst k)) p = Inr (snd k)" by blast
  with d show ?case by simp
qed

lemma closest_point_minimal:
  assumes "near_any env vs p r = Inr False" and "vs \<noteq> []"
  shows "\<exists>t dt. t \<in> set vs \<and> closest_point env vs p = Inr (point_or t p) \<and>
    point_dist env (point0 t) p = Inr dt \<and>
    (\<forall>u \<in> set vs. \<exists>du. point_dist env (point0 u) p = Inr du \<and> \<not> closer du dt)"
proof -
  from keyed_of_near [OF assms(1)] obtain ks where k: "keyed env p vs = Inr ks"
    and f: "map fst ks = vs"
    and d: "\<forall>k \<in> set ks. point_dist env (point0 (fst k)) p = Inr (snd k)" by blast
  from f assms(2) have ne: "ks \<noteq> []" by auto
  then have hd: "hd ks # tl ks = ks" by simp
  let ?m = "min_key (hd ks) (tl ks)"
  from min_key_minimal [of "hd ks" "tl ks"] hd
  have m: "?m \<in> set ks" and le: "\<forall>u \<in> set ks. \<not> closer (snd u) (snd ?m)" by simp_all
  from m f have t: "fst ?m \<in> set vs" by force
  from k have c: "closest_point env vs p = Inr (point_or (fst ?m) p)"
    by (simp add: closest_point_def Let_def)
  from d m have dm: "point_dist env (point0 (fst ?m)) p = Inr (snd ?m)" by blast
  have "\<exists>du. point_dist env (point0 u) p = Inr du \<and> \<not> closer du (snd ?m)" if "u \<in> set vs" for u
  proof -
    from that f obtain k' where "k' \<in> set ks" "fst k' = u" by force
    with d le show ?thesis by auto
  qed
  with t c dm show ?thesis by blast
qed

lemma point_or_present: "vx t \<noteq> None \<Longrightarrow> vy t \<noteq> None \<Longrightarrow> point_or t p = point0 t"
  by (auto simp: point_or_def point0_def)

text \<open>
  C3, as the source has it. In an attempt that reaches the verification and finds no
  freshly predicted target within the radius of the chosen point: when the verification
  returned at least one target, an attempt that is not the final one ends without a
  click and the loop goes on, and the final attempt clicks the point taken from a fresh
  target that no other fresh target is closer than, which is the position of that
  target when it carries both coordinates (a coordinate it lacks is kept from the chosen
  point); when the verification returned no target, the attempt clicks the chosen point,
  final or not.
\<close>

theorem verify_nothing_near:
  assumes b: "before_cap (attempt_env env attempt) = Inr ()"
    and p: "pred (attempt_env env attempt) = Inr targets"
    and ne: "targets \<noteq> []"
    and c: "\<not> (attempt < 2 \<and> vconfidence (best_target targets) < 0.5)"
    and vc: "verify_cap (attempt_env env attempt) = Inr ()"
    and vp: "v_pred (attempt_env env attempt) = Inr v_targets"
    and nn: "near_any env v_targets (point0 (best_target targets)) verify_radius = Inr False"
  shows "(v_targets \<noteq> [] \<and> attempt < max_retries - 1 \<longrightarrow>
            fst (attempt_body env instr verify_radius max_retries attempt s) = Continue \<and>
            calls (snd (attempt_body env instr verify_radius max_retries attempt s)) =
              calls s @ [CaptureFullscreen (if attempt = 0 then ''before''
                           else if attempt = 1 then ''retry1'' else ''retry2''),
                         SuggestTargets, CaptureFullscreen ''verify'', SuggestTargets]) \<and>
         (v_targets \<noteq> [] \<and> \<not> attempt < max_retries - 1 \<and>
          mouse_move (attempt_env env attempt) = Inr () \<and>
          click (attempt_env env attempt) = Inr () \<and> after_cap (attempt_env env attempt) = Inr () \<longrightarrow>
            fst (attempt_body env instr verify_radius max_retries attempt s) = Return \<and>
            success (out (snd (attempt_body env instr verify_radius max_retries attempt s))) \<and>
            (\<exists>t dt. t \<in> set v_targets \<and>
               point_dist env (point0 t) (point0 (best_target targets)) = Inr dt \<and>
               (\<forall>u \<in> set v_targets. \<exists>du.
                  point_dist env (point0 u) (point0 (best_target targets)) = Inr du \<and>
                  \<not> closer du dt) \<and>
               mouse_click_at (out (snd (attempt_body env instr verify_radius max_retries attempt s))) =
                 Some (point_or t (point0 (best_target targets))) \<and>
               (vx t \<noteq> None \<and> vy t \<noteq> None \<longrightarrow>
                  mouse_click_at (out (snd (attempt_body env instr verify_radius max_retries attempt s))) =
                    Some (point0 t)))) \<and>
         (v_targets = [] \<and>
          mouse_move (attempt_env env attempt) = Inr () \<and>
          click (attempt_env env attempt) = Inr () \<and> after_cap (attempt_env env attempt) = Inr () \<longrightarrow>
            fst (attempt_body env instr verify_radius max_retries attempt s) = Return \<and>
            success (out (snd (attempt_body env instr verify_radius max_retries attempt s))) \<and>
            mouse_click_at (out (snd (attempt_body env instr verify_radius max_retries attempt s))) =
              Some (point0 (best_target targets)) \<and>
            retries_used (out (snd (attempt_body env instr verify_radius max_retries attempt s))) =
              attempt)"
proof -
  let ?P = "point0 (best_target targets)"
  let ?io = "attempt_env env attempt"
  define s2 where "s2 =
    (log_call SuggestTargets (shot (''attempt_'' @ str_of_nat attempt)
      (log_call (CaptureFullscreen (if attempt = 0 then ''before''
         else if attempt = 1 then ''retry1'' else ''retry2'')) s)))
    \<lparr>out := (out (log_call SuggestTargets (shot (''attempt_'' @ str_of_nat attempt)
      (log_call (CaptureFullscreen (if attempt = 0 then ''before''
         else if attempt = 1 then ''retry1'' else ''retry2'')) s))))
       \<lparr>target := Some (fst ?P, snd ?P,
           vlabel (best_target targets), vconfidence (best_target targets))\<rparr>\<rparr>"
  define s3 where "s3 = log_call SuggestTargets (shot ''verify'' (log_call (CaptureFullscreen ''verify'') s2))"
  have cs: "calls s3 = calls s @ [CaptureFullscreen (if attempt = 0 then ''before''
      else if attempt = 1 then ''retry1'' else ''retry2''),
      SuggestTargets, CaptureFullscreen ''verify'', SuggestTargets]"
    by (simp add: s3_def s2_def calls_log_call calls_shot)
  have body: "attempt_body env instr verify_radius max_retries attempt s =
      verify env ?io verify_radius attempt max_retries ?P s2"
    using c unfolding attempt_body_def Let_def s2_def by (auto simp: b p ne)
  have ver: "verify env ?io verify_radius attempt max_retries ?P s2 =
      (if v_targets \<noteq> [] \<and> attempt < max_retries - 1 then (Continue, s3)
       else if v_targets \<noteq> []
       then (case closest_point env v_targets ?P of
               Inl e \<Rightarrow> on_exception attempt max_retries s3 e
             | Inr q \<Rightarrow> act ?io attempt max_retries q s3)
       else act ?io attempt max_retries ?P s3)"
    unfolding verify_def Let_def s3_def by (simp add: vc vp nn)
  have a: "mouse_move ?io = Inr () \<Longrightarrow> click ?io = Inr () \<Longrightarrow> after_cap ?io = Inr ()
      \<Longrightarrow> fst (act ?io attempt max_retries q s3) = Return \<and>
          success (out (snd (act ?io attempt max_retries q s3))) \<and>
          mouse_click_at (out (snd (act ?io attempt max_retries q s3))) = Some q \<and>
          retries_used (out (snd (act ?io attempt max_retries q s3))) = attempt"
    for q
    by (simp add: act_def Let_def)
  have first: "v_targets \<noteq> [] \<and> attempt < max_retries - 1 \<longrightarrow>
      fst (attempt_body env instr verify_radius max_retries attempt s) = Continue \<and>
      calls (snd (attempt_body env instr verify_radius max_retries attempt s)) =
        calls s @ [CaptureFullscreen (if attempt = 0 then ''before''
                     else if attempt = 1 then ''retry1'' else ''retry2''),
                   SuggestTargets, CaptureFullscreen ''verify'', SuggestTargets]"
    unfolding body ver using cs by simp
  have third: "v_targets = [] \<and> mouse_move ?io = Inr () \<and> click ?io = Inr () \<and>
      after_cap ?io = Inr () \<longrightarrow>
      fst (attempt_body env instr verify_radius max_retries attempt s) = Return \<and>
      success (out (snd (attempt_body env instr verify_radius max_retries attempt s))) \<and>
      mouse_click_at (out (snd (attempt_body env instr verify_radius max_retries attempt s))) =
        Some ?P \<and>
      retries_used (out (snd (attempt_body env instr verify_radius max_retries attempt s))) =
        attempt"
    unfolding body ver using a [of ?P] by simp
  have second: "v_targets \<noteq> [] \<and> \<not> attempt < max_retries - 1 \<and>
      mouse_move ?io = Inr () \<and> click ?io = Inr () \<and> after_cap ?io = Inr () \<longrightarrow>
      fst (attempt_body env instr verify_radius max_retries attempt s) = Return \<and>
      success (out (snd (attempt_body env instr verify_radius max_retries attempt s))) \<and>
      (\<exists>t dt. t \<in> set v_targets \<and>
         point_dist env (point0 t) ?P = Inr dt \<and>
         (\<forall>u \<in> set v_targets. \<exists>du. point_dist env (point0 u) ?P = Inr du \<and> \<not> closer du dt) \<and>
         mouse_click_at (out (snd (attempt_body env instr verify_radius max_retries attempt s))) =
           Some (point_or t ?P) \<and>
         (vx t \<noteq> None \<and> vy t \<noteq> None \<longrightarrow>
            mouse_click_at (out (snd (attempt_body env instr verify_radius max_retries attempt s))) =
              Some (point0 t)))"
  proof
    assume h: "v_targets \<noteq> [] \<and> \<not> attempt < max_retries - 1 \<and>
      mouse_move ?io = Inr () \<and> click ?io = Inr () \<and> after_cap ?io = Inr ()"
    then have v: "v_targets \<noteq> []" by simp
    from closest_point_minimal [OF nn v] obtain t dt where t: "t \<in> set v_targets"
      and cp: "closest_point env v_targets ?P = Inr (point_or t ?P)"
      and dt: "point_dist env (point0 t) ?P = Inr dt"
      and mn: "\<forall>u \<in> set v_targets. \<exists>du. point_dist env (point0 u) ?P = Inr du \<and> \<not> closer du dt"
      by blast
    from h cp have e: "attempt_body env instr verify_radius max_retries attempt s =
        act ?io attempt max_retries (point_or t ?P) s3"
      unfolding body ver by simp
    from h a [of "point_or t ?P"]
    have r: "fst (act ?io attempt max_retries (point_or t ?P) s3) = Return"
      and su: "success (out (snd (act ?io attempt max_retries (point_or t ?P) s3)))"
      and cl: "mouse_click_at (out (snd (act ?io attempt max_retries (point_or t ?P) s3)))
          = Some (point_or t ?P)"
      by simp_all
    have "vx t \<noteq> None \<and> vy t \<noteq> None \<longrightarrow>
        mouse_click_at (out (snd (act ?io attempt max_retries (point_or t ?P) s3))) = Some (point0 t)"
      using cl by (auto simp: point_or_present)
    with t dt mn r su cl show "fst (attempt_body env instr verify_radius max_retries attempt s) = Return \<and>
      success (out (snd (attempt_body env instr verify_radius max_retries attempt s))) \<and>
      (\<exists>t dt. t \<in> set v_targets \<and>
         point_dist env (point0 t) ?P = Inr dt \<and>
         (\<forall>u \<in> set v_targets. \<exists>du. point_dist env (point0 u) ?P = Inr du \<and> \<not> closer du dt) \<and>
         mouse_click_at (out (snd (attempt_body env instr verify_radius max_retries attempt s))) =
           Some (point_or t ?P) \<and>
         (vx t \<noteq> None \<and> vy t \<noteq> None \<longrightarrow>
            mouse_click_at (out (snd (attempt_body env instr verify_radius max_retries attempt s))) =
              Some (point0 t)))"
      unfolding e by blast
  qed
  from first second third show ?thesis by blast
qed

text \<open>
  A final attempt whose verification finds two targets, both far from the chosen point:
  the click goes to the closer of the two.
\<close>

theorem verify_nothing_near_witness:
  "mouse_click_at (out (snd (attempt_body
      (scripted_env [attempt_ok [] [], attempt_ok [] [],
         attempt_ok [target_at 100 100 0.9] [target_at 300 300 0.9, target_at 200 200 0.1]])
      ''click send'' 32 3 2 (initial_gui_state (0, 0))))) = Some (200, 200)"
proof -
  let ?env = "scripted_env [attempt_ok [] [], attempt_ok [] [],
         attempt_ok [target_at 100 100 0.9] [target_at 300 300 0.9, target_at 200 200 0.1]]"
  let ?A = "target_at 300 300 0.9" and ?B = "target_at 200 200 0.1"
  let ?body = "attempt_body ?env ''click send'' 32 3 2 (initial_gui_state (0, 0))"
  have io: "attempt_env ?env 2 = attempt_ok [target_at 100 100 0.9] [?A, ?B]"
    by (simp add: scripted_env_def)
  have b: "before_cap (attempt_env ?env 2) = Inr ()"
    and p: "pred (attempt_env ?env 2) = Inr [target_at 100 100 0.9]"
    and vc: "verify_cap (attempt_env ?env 2) = Inr ()"
    and vp: "v_pred (attempt_env ?env 2) = Inr [?A, ?B]"
    and mv: "mouse_move (attempt_env ?env 2) = Inr ()"
    and cl: "click (attempt_env ?env 2) = Inr ()"
    and af: "after_cap (attempt_env ?env 2) = Inr ()"
    unfolding io by (simp_all add: attempt_ok_def)
  have ne: "[target_at 100 100 0.9] \<noteq> []" by simp
  have c: "\<not> ((2::nat) < 2 \<and> vconfidence (best_target [target_at 100 100 0.9]) < 0.5)" by simp
  have pt: "point0 (best_target [target_at 100 100 0.9]) = (100, 100)"
    by (simp add: best_target_def max_by_def point0_def target_at_def)
  have r: "sqrt 1024 = 32" by (rule real_sqrt_unique) simp_all
  have dA: "point_dist ?env (point0 ?A) (100, 100) = Inr (Dist (sqrt 80000))"
    and dB: "point_dist ?env (point0 ?B) (100, 100) = Inr (Dist (sqrt 20000))"
    by (simp_all add: point_dist_def scripted_env_def exact_hypot_def point0_def target_at_def)
  have far: "\<not> sqrt 80000 \<le> (32::real)" "\<not> sqrt 20000 \<le> (32::real)"
    using real_sqrt_le_iff [of 80000 1024] real_sqrt_le_iff [of 20000 1024]
    by (simp_all add: r)
  have nn: "near_any ?env [?A, ?B] (point0 (best_target [target_at 100 100 0.9])) 32 = Inr False"
    unfolding pt using far by (simp add: dA dB within_radius_def)
  have h: "[?A, ?B] \<noteq> [] \<and> \<not> (2::nat) < 3 - 1 \<and> mouse_move (attempt_env ?env 2) = Inr () \<and>
      click (attempt_env ?env 2) = Inr () \<and> after_cap (attempt_env ?env 2) = Inr ()"
    using mv cl af by simp
  from verify_nothing_near [OF b p ne c vc vp nn, of 3 "''click send''" "initial_gui_state (0, 0)"] h
  obtain t dt where t: "t \<in> set [?A, ?B]"
    and dt: "point_dist ?env (point0 t) (100, 100) = Inr dt"
    and mn: "\<forall>u \<in> set [?A, ?B]. \<exists>du. point_dist ?env (point0 u) (100, 100) = Inr du \<and> \<not> closer du dt"
    and ck: "mouse_click_at (out (snd ?body)) = Some (point_or t (100, 100))"
    unfolding pt by blast
  have "t \<noteq> ?A"
  proof
    assume "t = ?A"
    with dt dA have "dt = Dist (sqrt 80000)" by simp
    with mn dB have "\<not> closer (Dist (sqrt 20000)) (Dist (sqrt 80000))" by auto
    then show False by (simp add: closer_def)
  qed
  with t have "t = ?B" by simp
  with ck show ?thesis by (simp add: point_or_def target_at_def)
qed

text \<open>
  The claim as the specification words it, also for a verification that returns no
  target, fails in the first of three attempts: nothing is near the chosen point, and
  the attempt clicks it instead of going back to the capture.
\<close>

theorem verify_empty_counterexample:
  "near_any (scripted_env [attempt_ok [target_at 100 100 0.9] []]) [] (100, 100) 32 = Inr False \<and>
   (0::nat) < 3 - 1 \<and>
   mouse_click_at (out (execute (scripted_env [attempt_ok [target_at 100 100 0.9] []])
      (0, 0) ''click send'' 32 3)) = Some (100, 100) \<and>
   retries_used (out (execute (scripted_env [attempt_ok [target_at 100 100 0.9] []])
      (0, 0) ''click send'' 32 3)) = 0 \<and>
   calls (execute (scripted_env [attempt_ok [target_at 100 100 0.9] []])
      (0, 0) ''click send'' 32 3) =
     [CaptureFullscreen ''before'', SuggestTargets, CaptureFullscreen ''verify'', SuggestTargets,
      MouseMove 100 100, MouseClick 100 100, CaptureFullscreen ''after'']"
  by code_simp

section \<open>Properties of the execution summary\<close>

lemma count_status_partition:
  "length ex = count_status COMPLETED ex + count_status FAILED ex + count_status RUNNING ex
     + count_status PENDING ex"
proof (induction ex)
  case Nil
  show ?case by (simp add: count_status_def)
next
  case (Cons p ex)
  then show ?case by (cases "status (snd p)") (simp_all add: count_status_def)
qed

lemma or0_truthy: "truthy t \<Longrightarrow> or0 t = the t"
  by (cases t) (simp_all add: truthy_def or0_def)

lemma timed_sum:
  "sum_list (map (\<lambda>e. or0 (completed_at e) - or0 (started_at e))
      (filter (\<lambda>e. truthy (completed_at e) \<and> truthy (started_at e)) es)) =
   sum_list (map (\<lambda>e. the (completed_at e) - the (started_at e))
      (filter (\<lambda>e. truthy (completed_at e) \<and> truthy (started_at e)) es))"
  by (induction es) (simp_all add: or0_truthy)

lemma filter_same:
  "\<forall>e \<in> set es. P e \<longleftrightarrow> Q e \<Longrightarrow> filter P es = filter Q es"
  by (induction es) simp_all

text \<open>
  C7, as the source has it. The counts of the summary partition the records by status.
  The total execution time is present only when a task is completed, and is then the
  sum of \<open>completed_at - started_at\<close> over the records that have both time stamps (set and
  not zero), whatever their status; it is the sum over the completed tasks when the
  records with both time stamps are exactly the completed ones.
\<close>

theorem summary_counts_and_time:
  "total_tasks (get_execution_summary ex) =
     completed (get_execution_summary ex) + failed (get_execution_summary ex) +
     running (get_execution_summary ex) + pending (get_execution_summary ex) \<and>
   completed (get_execution_summary ex) = count_status COMPLETED ex \<and>
   failed (get_execution_summary ex) = count_status FAILED ex \<and>
   running (get_execution_summary ex) = count_status RUNNING ex \<and>
   pending (get_execution_summary ex) = count_status PENDING ex \<and>
   total_execution_time (get_execution_summary ex) =
     (if 0 < count_status COMPLETED ex
      then Some (sum_list (map (\<lambda>e. the (completed_at e) - the (started_at e))
             (filter (\<lambda>e. truthy (completed_at e) \<and> truthy (started_at e)) (map snd ex))))
      else None) \<and>
   (0 < count_status COMPLETED ex \<and>
    (\<forall>e \<in> set (map snd ex).
       truthy (completed_at e) \<and> truthy (started_at e) \<longleftrightarrow> status e = COMPLETED)
    \<longrightarrow> total_execution_time (get_execution_summary ex) =
          Some (sum_list (map (\<lambda>e. the (completed_at e) - the (started_at e))
             (filter (\<lambda>e. status e = COMPLETED) (map snd ex)))))"
proof -
  have t: "total_execution_time (get_execution_summary ex) =
     (if 0 < count_status COMPLETED ex
      then Some (sum_list (map (\<lambda>e. the (completed_at e) - the (started_at e))
             (filter (\<lambda>e. truthy (completed_at e) \<and> truthy (started_at e)) (map snd ex))))
      else None)"
    by (simp add: get_execution_summary_def Let_def timed_sum)
  have c: "total_tasks (get_execution_summary ex) =
     completed (get_execution_summary ex) + failed (get_execution_summary ex) +
     running (get_execution_summary ex) + pending (get_execution_summary ex)"
    using count_status_partition [of ex] by (simp add: get_execution_summary_def Let_def)
  have f: "filter (\<lambda>e. truthy (completed_at e) \<and> truthy (started_at e)) (map snd ex)
      = filter (\<lambda>e. status e = COMPLETED) (map snd ex)"
    if "\<forall>e \<in> set (map snd ex).
       truthy (completed_at e) \<and> truthy (started_at e) \<longleftrightarrow> status e = COMPLETED"
    using that by (rule filter_same)
  from t f have l: "0 < count_status COMPLETED ex \<and>
    (\<forall>e \<in> set (map snd ex).
       truthy (completed_at e) \<and> truthy (started_at e) \<longleftrightarrow> status e = COMPLETED)
    \<longrightarrow> total_execution_time (get_execution_summary ex) =
          Some (sum_list (map (\<lambda>e. the (completed_at e) - the (started_at e))
             (filter (\<lambda>e. status e = COMPLETED) (map snd ex))))"
    by simp
  have s: "completed (get_execution_summary ex) = count_status COMPLETED ex"
    "failed (get_execution_summary ex) = count_status FAILED ex"
    "running (get_execution_summary ex) = count_status RUNNING ex"
    "pending (get_execution_summary ex) = count_status PENDING ex"
    by (simp_all add: get_execution_summary_def Let_def)
  from c s t l show ?thesis by blast
qed

text \<open>
  One completed task of two: the counts add up, and the total time is present and
  counts the failed task too.
\<close>

theorem summary_counts_and_time_witness:
  "total_tasks (get_execution_summary example_executions) = 1 + 1 + 0 + 0 \<and>
   total_execution_time (get_execution_summary example_executions) = Some (2 + 1)"
proof -
  have c: "count_status COMPLETED example_executions = 1"
    "count_status FAILED example_executions = 1"
    "count_status RUNNING example_executions = 0"
    "count_status PENDING example_executions = 0"
    by (simp_all add: count_status_def example_executions_def)
  have s: "sum_list (map (\<lambda>e. the (completed_at e) - the (started_at e))
      (filter (\<lambda>e. truthy (completed_at e) \<and> truthy (started_at e))
        (map snd example_executions))) = 2 + 1"
    by (simp add: example_executions_def truthy_def)
  from summary_counts_and_time [of example_executions] c s show ?thesis by simp
qed

text \<open>
  The claim as the specification words it, the sum over exactly the completed tasks,
  fails on the records of that run: the completed task took two seconds and the summary
  reports three.
\<close>

theorem summary_time_counterexample:
  "map_option executions (run_schedule 3 example_schedule (init_config [] (parse ''a and b'')))
     = Some example_executions \<and>
   total_execution_time (get_execution_summary example_executions) = Some 3 \<and>
   sum_list (map (\<lambda>e. the (completed_at e) - the (started_at e))
     (filter (\<lambda>e. status e = COMPLETED) (map snd example_executions))) = 2"
proof -
  have r: "map_option executions (run_schedule 3 example_schedule (init_config []
     [\<lparr>task_id = ''task_0'', instruction = ''a'', task_type = PARALLEL, depends_on = []\<rparr>,
      \<lparr>task_id = ''task_1'', instruction = ''b'', task_type = PARALLEL, depends_on = []\<rparr>]))
     = Some example_executions"
    by code_simp
  have t: "total_execution_time (get_execution_summary example_executions) = Some 3"
    by code_simp
  have u: "sum_list (map (\<lambda>e. the (completed_at e) - the (started_at e))
     (filter (\<lambda>e. status e = COMPLETED) (map snd example_executions))) = 2"
    by (simp add: example_executions_def)
  show ?thesis unfolding parse_a_and_b using r t u by blast
qed

section \<open>Properties of the task orchestrator\<close>

lemma map_of_dict_set: "map_of (dict_set k v d) k' = (if k' = k then Some v else map_of d k')"
  by (induction d) auto

lemma map_of_update_entry:
  "map_of (update_entry k f d) k' = (if k' = k then map_option f (map_of d k) else map_of d k')"
  by (induction d) (auto simp: update_entry_def)

lemma init_executions_pending:
  "(\<exists>e. map_of ex d = Some e \<and> status e = PENDING) \<or> d \<in> task_id ` set ts \<Longrightarrow>
   \<exists>e. map_of (init_executions ex ts) d = Some e \<and> status e = PENDING"
proof (induction ts arbitrary: ex)
  case Nil
  then show ?case by simp
next
  case (Cons t ts)
  let ?ex = "dict_set (task_id t)
          \<lparr>task = t, status = PENDING, result = None, error = None, started_at = None,
           completed_at = None\<rparr> ex"
  from Cons.prems
  have "(\<exists>e. map_of ?ex d = Some e \<and> status e = PENDING) \<or> d \<in> task_id ` set ts"
    by (auto simp: map_of_dict_set)
  from Cons.IH [OF this] show ?case by simp
qed

lemma all_deps_done_blocked:
  "d \<in> set deps \<Longrightarrow> map_of ex d = Some e \<Longrightarrow> status e \<noteq> COMPLETED \<Longrightarrow> status e \<noteq> FAILED
   \<Longrightarrow> \<not> all_deps_done ex deps"
  by (induction deps) (auto split: option.splits)

subsection \<open>A dependency inside the list blocks the submit loop\<close>

lemma blocked_step:
  assumes s: "step max_workers ev c = Some c'"
    and p: "pc c = Submitting ts" and t: "t \<in> set ts" and d: "d \<in> set (depends_on t)"
    and e: "map_of (executions c) d = Some e" and st: "status e = PENDING \<or> status e = RUNNING"
  shows "\<exists>ts' e'. pc c' = Submitting ts' \<and> t \<in> set ts' \<and>
    map_of (executions c') d = Some e' \<and> (status e' = PENDING \<or> status e' = RUNNING)"
proof (cases ev)
  case MainStep
  from t obtain u us where ts: "ts = u # us" by (cases ts) auto
  show ?thesis
  proof (cases "all_deps_done (executions c) (depends_on u)")
    case False
    with s MainStep p ts have "c' = c" by (simp add: step_def main_step_def)
    with p t e st show ?thesis by blast
  next
    case True
    have "u \<noteq> t"
    proof
      assume "u = t"
      with True all_deps_done_blocked [OF d e] st show False by auto
    qed
    with t ts have tu: "t \<in> set us" by simp
    from s MainStep p ts True
    have "pc c' = Submitting us" and "executions c' = executions c"
      by (auto simp: step_def main_step_def)
    with tu e st show ?thesis by auto
  qed
next
  case (WorkerStart i time)
  with s have pc: "pc c' = pc c"
    and ex: "executions c' = update_entry (task_id (w_task (workers c ! i)))
        (\<lambda>e. e\<lparr>status := RUNNING, started_at := Some time\<rparr>) (executions c)"
    by (auto simp: step_def split: if_splits)
  from ex e st have "\<exists>e'. map_of (executions c') d = Some e' \<and>
      (status e' = PENDING \<or> status e' = RUNNING)"
    by (auto simp: map_of_update_entry)
  with pc p t show ?thesis by auto
next
  case (WorkerFinish i r time)
  with s have pc: "pc c' = pc c"
    and ex: "executions c' = update_entry (task_id (w_task (workers c ! i)))
        (\<lambda>e. e\<lparr>completed_at := Some time\<rparr>) (executions c)"
    by (auto simp: step_def split: if_splits)
  from ex e st have "\<exists>e'. map_of (executions c') d = Some e' \<and>
      (status e' = PENDING \<or> status e' = RUNNING)"
    by (auto simp: map_of_update_entry)
  with pc p t show ?thesis by auto
next
  case FutureTimeout
  with s p show ?thesis by (simp add: step_def)
qed

lemma blocked_run:
  "run_schedule max_workers evs c = Some c' \<Longrightarrow>
   pc c = Submitting ts \<Longrightarrow> t \<in> set ts \<Longrightarrow> d \<in> set (depends_on t) \<Longrightarrow>
   map_of (executions c) d = Some e \<Longrightarrow> status e = PENDING \<or> status e = RUNNING \<Longrightarrow>
   \<exists>ts'. pc c' = Submitting ts' \<and> t \<in> set ts'"
proof (induction evs arbitrary: c ts e)
  case Nil
  then show ?case by simp
next
  case (Cons ev evs)
  from Cons.prems(1) obtain c1 where s: "step max_workers ev c = Some c1"
    and r: "run_schedule max_workers evs c1 = Some c'"
    by (auto split: option.splits)
  from blocked_step [OF s Cons.prems(2,3,4,5,6)]
  obtain ts1 e1 where "pc c1 = Submitting ts1" "t \<in> set ts1"
    "map_of (executions c1) d = Some e1" "status e1 = PENDING \<or> status e1 = RUNNING"
    by blast
  from Cons.IH [OF r this(1,2) Cons.prems(4) this(3,4)] show ?case .
qed

text \<open>
  C1 fails on the code. When a task of the list depends on the id of a task of the list
  (as the second task of \<open>X then Y\<close> does), no schedule brings \<open>execute_tasks\<close> to its
  return: the main thread stays in the submit loop, at or before that task, because the
  terminal statuses are written by the collect loop only, which comes after it.
\<close>

theorem execute_tasks_never_returns:
  assumes "t \<in> set tasks"
    and "d \<in> set (depends_on t)"
    and "d \<in> task_id ` set tasks"
    and "run_schedule max_workers evs (init_config ex0 tasks) = Some c"
  shows "pc c \<noteq> Returned \<and> (\<exists>ts. pc c = Submitting ts \<and> t \<in> set ts)"
proof -
  from init_executions_pending [of ex0 d tasks] assms(3)
  obtain e where e: "map_of (executions (init_config ex0 tasks)) d = Some e"
    and st: "status e = PENDING \<or> status e = RUNNING"
    by (auto simp: init_config_def)
  have p: "pc (init_config ex0 tasks) = Submitting tasks" by (simp add: init_config_def)
  from blocked_run [OF assms(4) p assms(1,2) e st] show ?thesis by auto
qed

text \<open>
  The two tasks of \<open>a then b\<close>: the first task is started and returns, and the main
  thread still polls for it.
\<close>

theorem execute_tasks_never_returns_witness:
  "\<exists>c. run_schedule 3
          [MainStep, WorkerStart 0 1,
           WorkerFinish 0 (Inr \<lparr>result_path = SHELL, result_success = True\<rparr>) 2,
           MainStep, MainStep]
          (init_config [] (parse ''a then b'')) = Some c \<and>
       pc c \<noteq> Returned \<and> status_of c ''task_0'' = Some RUNNING"
proof -
  let ?t0 = "\<lparr>task_id = ''task_0'', instruction = ''a'', task_type = PARALLEL, depends_on = []\<rparr>"
  let ?t1 = "\<lparr>task_id = ''task_1'', instruction = ''b'', task_type = SEQUENTIAL,
         depends_on = [''task_0'']\<rparr>"
  let ?evs = "[MainStep, WorkerStart 0 1,
            WorkerFinish 0 (Inr \<lparr>result_path = SHELL, result_success = True\<rparr>) 2,
            MainStep, MainStep]"
  have s: "map_option (\<lambda>c. status_of c ''task_0'')
      (run_schedule 3 ?evs (init_config [] [?t0, ?t1])) = Some (Some RUNNING)"
    by code_simp
  then obtain c where c: "run_schedule 3 ?evs (init_config [] [?t0, ?t1]) = Some c"
    and s': "status_of c ''task_0'' = Some RUNNING"
    by auto
  have h1: "?t1 \<in> set [?t0, ?t1]" by simp
  have h2: "''task_0'' \<in> set (depends_on ?t1)" by simp
  have h3: "''task_0'' \<in> task_id ` set [?t0, ?t1]" by simp
  from execute_tasks_never_returns [OF h1 h2 h3 c] have "pc c \<noteq> Returned" by blast
  with c s' show ?thesis unfolding parse_a_then_b by blast
qed

subsection \<open>The invariant holds along every run\<close>


lemma status_of_executions:
  "executions c' = executions c \<Longrightarrow> status_of c' tid = status_of c tid"
  by (simp add: status_of_def)

















text \<open>The ids the decomposer gives are distinct.\<close>

lemma parse_ids_distinct: "distinct (map task_id (parse instr))"
proof -
  have "distinct (map task_id (build_tasks 0 segs))" for segs
  proof -
    have "i = j" if "i < length segs" "j < length segs"
      "map task_id (build_tasks 0 segs) ! i = map task_id (build_tasks 0 segs) ! j" for i j
    proof -
      from that have "task_name i = task_name j"
        by (simp add: length_build_tasks nth_build_tasks)
      then show ?thesis by (rule task_name_inj)
    qed
    then show ?thesis by (auto simp: distinct_conv_nth length_build_tasks)
  qed
  then show ?thesis by (simp add: parse_def Let_def)
qed




end
